theory Spec2Isabelle
  imports Complex_Main "HOL-Library.Monad_Syntax" "HOL-Library.Code_Target_Nat"
begin

section \<open>Shared model of the hash sets\<close>

text \<open>
  The repository holds four separate-chaining hash sets
  (\<^verbatim>\<open>HashSetSequential\<close>, \<^verbatim>\<open>HashSetCoarseGrained\<close>, \<^verbatim>\<open>HashSetStriped\<close>,
  \<^verbatim>\<open>HashSetRefinable\<close>) and a second draft of the refinable one.  Every class below is
  embedded as a record of its fields and its member functions as functions from the state
  before the call to the result and the state after it.

  Conventions of the embedding:
  \<^item> calls run one after the other, each to its end, as one thread executes them: the
    interleaving of several threads is not part of the embedding;
  \<^item> a \<^verbatim>\<open>size_t\<close> is the natural number it denotes; the three places where the
    arithmetic can leave the range (\<^verbatim>\<open>++size_\<close>, \<^verbatim>\<open>--size_\<close>, \<^verbatim>\<open>size() * 2\<close>) wrap modulo
    \<open>2 ^ 64\<close> explicitly;
  \<^item> \<^verbatim>\<open>std::vector<std::vector<T>>\<close> is a list of lists, \<^verbatim>\<open>push_back\<close> appends,
    \<^verbatim>\<open>std::find\<close> is membership and \<^verbatim>\<open>erase\<close> of the iterator it returns removes the first
    occurrence;
  \<^item> \<^verbatim>\<open>std::hash<T>\<close> is a parameter \<open>h\<close> of every function, giving the value of the hash;
  \<^item> a \<^verbatim>\<open>std::mutex\<close> is a boolean, \<open>True\<close> when held; the identity of the calling
    thread is a parameter \<open>me\<close>;
  \<^item> a call yields \<open>None\<close> when it has no result: undefined behaviour (\<^verbatim>\<open>%\<close> by zero,
    an index outside a vector) or a call that never returns when nothing else runs
    (locking a held mutex, spinning on a flag);
  \<^item> the load factor is a quotient of reals: the two conversions to \<^verbatim>\<open>double\<close> are exact
    below \<open>2 ^ 53\<close>;
  \<^item> allocation always succeeds.
\<close>

definition size_t_inc :: "nat \<Rightarrow> nat" where
  "size_t_inc n = (n + 1) mod 2 ^ 64"

definition size_t_dec :: "nat \<Rightarrow> nat" where
  "size_t_dec n = (n + 2 ^ 64 - 1) mod 2 ^ 64"

definition size_t_dbl :: "nat \<Rightarrow> nat" where
  "size_t_dbl n = (n * 2) mod 2 ^ 64"

definition kMinBuckets :: nat where
  "kMinBuckets = 4"

definition kMaxLoadFactor :: real where
  "kMaxLoadFactor = 4"

definition kMinLoadFactor :: real where
  "kMinLoadFactor = 1"

definition NormalizeCapacity :: "nat \<Rightarrow> nat" where
  "NormalizeCapacity cap = (if cap = 0 then kMinBuckets else cap)"

definition umod :: "nat \<Rightarrow> nat \<Rightarrow> nat option" where
  \<comment> \<open>\<^verbatim>\<open>x % n\<close> on \<^verbatim>\<open>size_t\<close>: undefined for \<open>n = 0\<close>.\<close>
  "umod x n = (if n = 0 then None else Some (x mod n))"

definition nth_opt :: "'b list \<Rightarrow> nat \<Rightarrow> 'b option" where
  \<comment> \<open>\<^verbatim>\<open>xs[i]\<close> on a vector: undefined outside it.\<close>
  "nth_opt xs i = (if i < length xs then Some (xs ! i) else None)"

text \<open>
  The rehash loops shared by every \<^verbatim>\<open>Resize\<close>:
  \<^verbatim>\<open>for (auto& v : bucket) { size_t i = hasher_(v) % new_cap; new_buckets[i].push_back(std::move(v)); }\<close>
  and the loop over the buckets around it.
\<close>

fun rehash_bucket :: "('a \<Rightarrow> nat) \<Rightarrow> nat \<Rightarrow> 'a list \<Rightarrow> 'a list list \<Rightarrow> 'a list list option" where
  "rehash_bucket h new_cap [] new_buckets = Some new_buckets"
| "rehash_bucket h new_cap (v # vs) new_buckets =
     (case umod (h v) new_cap of
        None \<Rightarrow> None
      | Some i \<Rightarrow> rehash_bucket h new_cap vs (new_buckets[i := new_buckets ! i @ [v]]))"

fun rehash_buckets :: "('a \<Rightarrow> nat) \<Rightarrow> nat \<Rightarrow> 'a list list \<Rightarrow> 'a list list \<Rightarrow> 'a list list option" where
  "rehash_buckets h new_cap [] new_buckets = Some new_buckets"
| "rehash_buckets h new_cap (bucket # rest) new_buckets =
     (case rehash_bucket h new_cap bucket new_buckets of
        None \<Rightarrow> None
      | Some nb \<Rightarrow> rehash_buckets h new_cap rest nb)"

text \<open>Mutexes: \<^verbatim>\<open>lock()\<close> on a held mutex never returns when nothing else runs.\<close>

definition lock_at :: "bool list \<Rightarrow> nat \<Rightarrow> bool list option" where
  "lock_at ls i = (if i < length ls \<and> \<not> ls ! i then Some (ls[i := True]) else None)"

definition unlock_at :: "bool list \<Rightarrow> nat \<Rightarrow> bool list" where
  "unlock_at ls i = ls[i := False]"

fun lock_all :: "bool list \<Rightarrow> bool list option" where
  "lock_all [] = Some []"
| "lock_all (m # ms) =
     (if m then None else (case lock_all ms of None \<Rightarrow> None | Some ls \<Rightarrow> Some (True # ls)))"

definition unlock_all :: "bool list \<Rightarrow> bool list" where
  "unlock_all ls = map (\<lambda>_. False) ls"

text \<open>The calls of the common interface and what they return.\<close>

datatype 'a call = AddCall 'a | RemoveCall 'a | ContainsCall 'a | SizeCall

datatype ret = RetBool bool | RetSize nat

text \<open>What the data model says of a bucket array, whatever the class.\<close>

definition elements :: "'a list list \<Rightarrow> 'a set" where
  "elements bs = \<Union> (set ` set bs)"

definition placed :: "('a \<Rightarrow> nat) \<Rightarrow> 'a list list \<Rightarrow> bool" where
  \<comment> \<open>Invariant I2: every element of bucket \<open>i\<close> hashes to \<open>i\<close>.\<close>
  "placed h bs = (\<forall>i \<in> {0..<length bs}. \<forall>v \<in> set (bs ! i). h v mod length bs = i)"

subsection \<open>\<^verbatim>\<open>HashSetSequential\<close> (src/skeleton/src/hash_set_sequential.h)\<close>

record 'a sequential =
  sq_buckets :: "'a list list"
  sq_size :: nat

definition HashSetSequential :: "nat \<Rightarrow> 'a sequential" where
  "HashSetSequential initial_capacity =
     \<lparr>sq_buckets = replicate (max (NormalizeCapacity initial_capacity) kMinBuckets) [],
      sq_size = 0\<rparr>"

definition Index_seq :: "('a \<Rightarrow> nat) \<Rightarrow> 'a sequential \<Rightarrow> 'a \<Rightarrow> nat option" where
  "Index_seq h s x = umod (h x) (length (sq_buckets s))"

definition LoadFactor_seq :: "'a sequential \<Rightarrow> real" where
  "LoadFactor_seq s = real (sq_size s) / real (length (sq_buckets s))"

definition Resize_seq :: "('a \<Rightarrow> nat) \<Rightarrow> 'a sequential \<Rightarrow> nat \<Rightarrow> 'a sequential option" where
  "Resize_seq h s new_cap =
     do {
       new_buckets \<leftarrow> rehash_buckets h new_cap (sq_buckets s) (replicate new_cap []);
       Some (s\<lparr>sq_buckets := new_buckets\<rparr>)
     }"

definition Add_seq :: "('a \<Rightarrow> nat) \<Rightarrow> 'a sequential \<Rightarrow> 'a \<Rightarrow> (bool \<times> 'a sequential) option" where
  "Add_seq h s elem =
     do {
       i \<leftarrow> Index_seq h s elem;
       let b = sq_buckets s ! i;
       if elem \<in> set b then Some (False, s)
       else do {
         let s1 = s\<lparr>sq_buckets := (sq_buckets s)[i := b @ [elem]],
                    sq_size := size_t_inc (sq_size s)\<rparr>;
         if LoadFactor_seq s1 > kMaxLoadFactor
         then do {
           s2 \<leftarrow> Resize_seq h s1 (size_t_dbl (length (sq_buckets s1)));
           Some (True, s2)
         }
         else Some (True, s1)
       }
     }"

definition Remove_seq :: "('a \<Rightarrow> nat) \<Rightarrow> 'a sequential \<Rightarrow> 'a \<Rightarrow> (bool \<times> 'a sequential) option" where
  "Remove_seq h s elem =
     do {
       i \<leftarrow> Index_seq h s elem;
       let b = sq_buckets s ! i;
       if elem \<notin> set b then Some (False, s)
       else Some (True, s\<lparr>sq_buckets := (sq_buckets s)[i := remove1 elem b],
                          sq_size := size_t_dec (sq_size s)\<rparr>)
     }"

definition Contains_seq :: "('a \<Rightarrow> nat) \<Rightarrow> 'a sequential \<Rightarrow> 'a \<Rightarrow> (bool \<times> 'a sequential) option" where
  "Contains_seq h s elem =
     do {
       i \<leftarrow> Index_seq h s elem;
       let b = sq_buckets s ! i;
       Some (elem \<in> set b, s)
     }"

definition Size_seq :: "'a sequential \<Rightarrow> (nat \<times> 'a sequential) option" where
  "Size_seq s = Some (sq_size s, s)"

fun exec_seq :: "('a \<Rightarrow> nat) \<Rightarrow> 'a sequential \<Rightarrow> 'a call \<Rightarrow> (ret \<times> 'a sequential) option" where
  "exec_seq h s (AddCall v) = map_option (\<lambda>(r, s'). (RetBool r, s')) (Add_seq h s v)"
| "exec_seq h s (RemoveCall v) = map_option (\<lambda>(r, s'). (RetBool r, s')) (Remove_seq h s v)"
| "exec_seq h s (ContainsCall v) = map_option (\<lambda>(r, s'). (RetBool r, s')) (Contains_seq h s v)"
| "exec_seq h s SizeCall = map_option (\<lambda>(n, s'). (RetSize n, s')) (Size_seq s)"

fun run_seq :: "('a \<Rightarrow> nat) \<Rightarrow> 'a sequential \<Rightarrow> 'a call list \<Rightarrow> 'a sequential option" where
  "run_seq h s [] = Some s"
| "run_seq h s (c # cs) =
     (case exec_seq h s c of None \<Rightarrow> None | Some (r, s') \<Rightarrow> run_seq h s' cs)"

subsection \<open>\<^verbatim>\<open>HashSetCoarseGrained\<close> (src/unnamed/part_001)\<close>

record 'a coarse =
  cg_mutex :: bool
  cg_buckets :: "'a list list"
  cg_size :: nat

definition HashSetCoarseGrained :: "nat \<Rightarrow> 'a coarse" where
  "HashSetCoarseGrained initial_capacity =
     \<lparr>cg_mutex = False,
      cg_buckets = replicate (max (NormalizeCapacity initial_capacity) kMinBuckets) [],
      cg_size = 0\<rparr>"

definition scoped_lock_coarse :: "'a coarse \<Rightarrow> 'a coarse option" where
  \<comment> \<open>\<^verbatim>\<open>std::scoped_lock lock(mutex_)\<close>\<close>
  "scoped_lock_coarse s = (if cg_mutex s then None else Some (s\<lparr>cg_mutex := True\<rparr>))"

definition Index_coarse :: "('a \<Rightarrow> nat) \<Rightarrow> 'a coarse \<Rightarrow> 'a \<Rightarrow> nat option" where
  "Index_coarse h s elem = umod (h elem) (length (cg_buckets s))"

definition LoadFactor_coarse :: "'a coarse \<Rightarrow> real" where
  "LoadFactor_coarse s = real (cg_size s) / real (length (cg_buckets s))"

definition Resize_coarse :: "('a \<Rightarrow> nat) \<Rightarrow> 'a coarse \<Rightarrow> nat \<Rightarrow> 'a coarse option" where
  "Resize_coarse h s new_capacity =
     do {
       new_buckets \<leftarrow> rehash_buckets h new_capacity (cg_buckets s) (replicate new_capacity []);
       Some (s\<lparr>cg_buckets := new_buckets\<rparr>)
     }"

definition Add_coarse :: "('a \<Rightarrow> nat) \<Rightarrow> 'a coarse \<Rightarrow> 'a \<Rightarrow> (bool \<times> 'a coarse) option" where
  "Add_coarse h s elem =
     do {
       s0 \<leftarrow> scoped_lock_coarse s;
       i \<leftarrow> Index_coarse h s0 elem;
       let b = cg_buckets s0 ! i;
       if elem \<in> set b then Some (False, s0\<lparr>cg_mutex := False\<rparr>)
       else do {
         let s1 = s0\<lparr>cg_buckets := (cg_buckets s0)[i := b @ [elem]],
                     cg_size := size_t_inc (cg_size s0)\<rparr>;
         if LoadFactor_coarse s1 > 4
         then do {
           s2 \<leftarrow> Resize_coarse h s1 (size_t_dbl (length (cg_buckets s1)));
           Some (True, s2\<lparr>cg_mutex := False\<rparr>)
         }
         else Some (True, s1\<lparr>cg_mutex := False\<rparr>)
       }
     }"

definition Remove_coarse :: "('a \<Rightarrow> nat) \<Rightarrow> 'a coarse \<Rightarrow> 'a \<Rightarrow> (bool \<times> 'a coarse) option" where
  "Remove_coarse h s elem =
     do {
       s0 \<leftarrow> scoped_lock_coarse s;
       i \<leftarrow> Index_coarse h s0 elem;
       let b = cg_buckets s0 ! i;
       if elem \<notin> set b then Some (False, s0\<lparr>cg_mutex := False\<rparr>)
       else do {
         let s1 = s0\<lparr>cg_buckets := (cg_buckets s0)[i := remove1 elem b],
                     cg_size := size_t_dec (cg_size s0)\<rparr>;
         if LoadFactor_coarse s1 < 1
         then do {
           s2 \<leftarrow> Resize_coarse h s1 (length (cg_buckets s1) div 2);
           Some (True, s2\<lparr>cg_mutex := False\<rparr>)
         }
         else Some (True, s1\<lparr>cg_mutex := False\<rparr>)
       }
     }"

definition Contains_coarse :: "('a \<Rightarrow> nat) \<Rightarrow> 'a coarse \<Rightarrow> 'a \<Rightarrow> (bool \<times> 'a coarse) option" where
  "Contains_coarse h s elem =
     do {
       s0 \<leftarrow> scoped_lock_coarse s;
       i \<leftarrow> Index_coarse h s0 elem;
       let b = cg_buckets s0 ! i;
       Some (elem \<in> set b, s0\<lparr>cg_mutex := False\<rparr>)
     }"

definition Size_coarse :: "'a coarse \<Rightarrow> (nat \<times> 'a coarse) option" where
  "Size_coarse s =
     do {
       s0 \<leftarrow> scoped_lock_coarse s;
       Some (cg_size s0, s0\<lparr>cg_mutex := False\<rparr>)
     }"

fun exec_coarse :: "('a \<Rightarrow> nat) \<Rightarrow> 'a coarse \<Rightarrow> 'a call \<Rightarrow> (ret \<times> 'a coarse) option" where
  "exec_coarse h s (AddCall v) = map_option (\<lambda>(r, s'). (RetBool r, s')) (Add_coarse h s v)"
| "exec_coarse h s (RemoveCall v) = map_option (\<lambda>(r, s'). (RetBool r, s')) (Remove_coarse h s v)"
| "exec_coarse h s (ContainsCall v) = map_option (\<lambda>(r, s'). (RetBool r, s')) (Contains_coarse h s v)"
| "exec_coarse h s SizeCall = map_option (\<lambda>(n, s'). (RetSize n, s')) (Size_coarse s)"

fun run_coarse :: "('a \<Rightarrow> nat) \<Rightarrow> 'a coarse \<Rightarrow> 'a call list \<Rightarrow> 'a coarse option" where
  "run_coarse h s [] = Some s"
| "run_coarse h s (c # cs) =
     (case exec_coarse h s c of None \<Rightarrow> None | Some (r, s') \<Rightarrow> run_coarse h s' cs)"

subsection \<open>\<^verbatim>\<open>HashSetStriped\<close> (src/unnamed/part_000, second file)\<close>

record 'a striped =
  st_buckets :: "'a list list"
  st_size :: nat
  st_locks :: "bool list"
  st_resize_mutex :: bool

definition HashSetStriped :: "nat \<Rightarrow> nat \<Rightarrow> 'a striped" where
  "HashSetStriped initial_capacity stripes =
     \<lparr>st_buckets = replicate (max (NormalizeCapacity initial_capacity) kMinBuckets) [],
      st_size = 0,
      st_locks = replicate (if stripes \<noteq> 0 then stripes else 64) False,
      st_resize_mutex = False\<rparr>"

definition HashSetStriped_default :: "nat \<Rightarrow> 'a striped" where
  \<comment> \<open>The constructor called without its second argument: \<^verbatim>\<open>size_t stripes = 64\<close>.\<close>
  "HashSetStriped_default initial_capacity = HashSetStriped initial_capacity 64"

definition Index_striped :: "('a \<Rightarrow> nat) \<Rightarrow> 'a striped \<Rightarrow> 'a \<Rightarrow> nat option" where
  "Index_striped h s elem = umod (h elem) (length (st_buckets s))"

definition StripeOfBucket :: "'a striped \<Rightarrow> nat \<Rightarrow> nat option" where
  "StripeOfBucket s b = umod b (length (st_locks s))"

definition LoadFactor_striped :: "'a striped \<Rightarrow> real" where
  "LoadFactor_striped s = real (st_size s) / real (length (st_buckets s))"

definition Resize_striped :: "('a \<Rightarrow> nat) \<Rightarrow> 'a striped \<Rightarrow> nat \<Rightarrow> 'a striped option" where
  "Resize_striped h s requested =
     (if st_resize_mutex s then None
      else do {
        let s0 = s\<lparr>st_resize_mutex := True\<rparr>;
        let new_capacity = max kMinBuckets (NormalizeCapacity requested);
        if new_capacity = length (st_buckets s0) then Some (s0\<lparr>st_resize_mutex := False\<rparr>)
        else do {
          held \<leftarrow> lock_all (st_locks s0);
          new_buckets \<leftarrow> rehash_buckets h new_capacity (st_buckets s0) (replicate new_capacity []);
          Some (s0\<lparr>st_buckets := new_buckets, st_locks := unlock_all held,
                   st_resize_mutex := False\<rparr>)
        }
      })"

partial_function (option) Add_striped ::
  "('a \<Rightarrow> nat) \<Rightarrow> 'a striped \<Rightarrow> 'a \<Rightarrow> (bool \<times> 'a striped) option" where
  "Add_striped h s elem =
     do {
       let cap = length (st_buckets s);
       i \<leftarrow> Index_striped h s elem;
       stripe \<leftarrow> StripeOfBucket s i;
       held \<leftarrow> lock_at (st_locks s) stripe;
       let s0 = s\<lparr>st_locks := held\<rparr>;
       if cap \<noteq> length (st_buckets s0)
       then Add_striped h (s0\<lparr>st_locks := unlock_at held stripe\<rparr>) elem
       else do {
         let b = st_buckets s0 ! i;
         if elem \<in> set b then Some (False, s0\<lparr>st_locks := unlock_at held stripe\<rparr>)
         else do {
           let s1 = s0\<lparr>st_buckets := (st_buckets s0)[i := b @ [elem]],
                       st_size := size_t_inc (st_size s0)\<rparr>;
           let s2 = s1\<lparr>st_locks := unlock_at held stripe\<rparr>;
           if LoadFactor_striped s2 > kMaxLoadFactor
           then do {
             s3 \<leftarrow> Resize_striped h s2 (size_t_dbl (length (st_buckets s2)));
             Some (True, s3)
           }
           else Some (True, s2)
         }
       }
     }"

partial_function (option) Remove_striped ::
  "('a \<Rightarrow> nat) \<Rightarrow> 'a striped \<Rightarrow> 'a \<Rightarrow> (bool \<times> 'a striped) option" where
  "Remove_striped h s elem =
     do {
       let cap = length (st_buckets s);
       i \<leftarrow> Index_striped h s elem;
       stripe \<leftarrow> StripeOfBucket s i;
       held \<leftarrow> lock_at (st_locks s) stripe;
       let s0 = s\<lparr>st_locks := held\<rparr>;
       if cap \<noteq> length (st_buckets s0)
       then Remove_striped h (s0\<lparr>st_locks := unlock_at held stripe\<rparr>) elem
       else do {
         let b = st_buckets s0 ! i;
         if elem \<notin> set b then Some (False, s0\<lparr>st_locks := unlock_at held stripe\<rparr>)
         else do {
           let s1 = s0\<lparr>st_buckets := (st_buckets s0)[i := remove1 elem b],
                       st_size := size_t_dec (st_size s0)\<rparr>;
           let s2 = s1\<lparr>st_locks := unlock_at held stripe\<rparr>;
           if LoadFactor_striped s2 < 1 \<and> length (st_buckets s2) > kMinBuckets
           then do {
             s3 \<leftarrow> Resize_striped h s2 (length (st_buckets s2) div 2);
             Some (True, s3)
           }
           else Some (True, s2)
         }
       }
     }"

partial_function (option) Contains_striped ::
  "('a \<Rightarrow> nat) \<Rightarrow> 'a striped \<Rightarrow> 'a \<Rightarrow> (bool \<times> 'a striped) option" where
  "Contains_striped h s elem =
     do {
       let cap = length (st_buckets s);
       i \<leftarrow> Index_striped h s elem;
       stripe \<leftarrow> StripeOfBucket s i;
       held \<leftarrow> lock_at (st_locks s) stripe;
       let s0 = s\<lparr>st_locks := held\<rparr>;
       if cap \<noteq> length (st_buckets s0)
       then Contains_striped h (s0\<lparr>st_locks := unlock_at held stripe\<rparr>) elem
       else do {
         let b = st_buckets s0 ! i;
         Some (elem \<in> set b, s0\<lparr>st_locks := unlock_at held stripe\<rparr>)
       }
     }"

definition Size_striped :: "'a striped \<Rightarrow> (nat \<times> 'a striped) option" where
  "Size_striped s = Some (st_size s, s)"

fun exec_striped :: "('a \<Rightarrow> nat) \<Rightarrow> 'a striped \<Rightarrow> 'a call \<Rightarrow> (ret \<times> 'a striped) option" where
  "exec_striped h s (AddCall v) = map_option (\<lambda>(r, s'). (RetBool r, s')) (Add_striped h s v)"
| "exec_striped h s (RemoveCall v) = map_option (\<lambda>(r, s'). (RetBool r, s')) (Remove_striped h s v)"
| "exec_striped h s (ContainsCall v) = map_option (\<lambda>(r, s'). (RetBool r, s')) (Contains_striped h s v)"
| "exec_striped h s SizeCall = map_option (\<lambda>(n, s'). (RetSize n, s')) (Size_striped s)"

fun run_striped :: "('a \<Rightarrow> nat) \<Rightarrow> 'a striped \<Rightarrow> 'a call list \<Rightarrow> 'a striped option" where
  "run_striped h s [] = Some s"
| "run_striped h s (c # cs) =
     (case exec_striped h s c of None \<Rightarrow> None | Some (r, s') \<Rightarrow> run_striped h s' cs)"

subsection \<open>\<^verbatim>\<open>HashSetRefinable\<close> (src/unnamed/part_000, first file)\<close>

record 'a refinable =
  rf_buckets :: "'a list list"
  rf_size :: nat
  rf_locks :: "bool list"
  rf_resize_mutex :: bool
  rf_version :: nat
  rf_resizing :: bool
  rf_owner_tid_hash :: nat

definition HashSetRefinable :: "nat \<Rightarrow> 'a refinable" where
  "HashSetRefinable initial_capacity =
     (let buckets = replicate (max (NormalizeCapacity initial_capacity) kMinBuckets) [] in
      \<lparr>rf_buckets = buckets,
       rf_size = 0,
       rf_locks = replicate (length buckets) False,
       rf_resize_mutex = False,
       rf_version = 0,
       rf_resizing = False,
       rf_owner_tid_hash = 0\<rparr>)"

definition IsResizingByOther :: "'a refinable \<Rightarrow> nat \<Rightarrow> bool" where
  "IsResizingByOther s me =
     (if \<not> rf_resizing s then False else rf_owner_tid_hash s \<noteq> me)"

partial_function (option) WaitIfResizingByOther :: "'a refinable \<Rightarrow> nat \<Rightarrow> int \<Rightarrow> unit option" where
  \<comment> \<open>Both branches of the loop body (pause, yield) leave the set as it is.\<close>
  "WaitIfResizingByOther s me spins =
     (if IsResizingByOther s me then WaitIfResizingByOther s me (spins + 1) else Some ())"

function migrate_refinable ::
  "('a \<Rightarrow> nat) \<Rightarrow> nat \<Rightarrow> nat \<Rightarrow> 'a list list \<Rightarrow> bool list \<Rightarrow> 'a list list
     \<Rightarrow> ('a list list \<times> bool list \<times> 'a list list) option" where
  \<comment> \<open>\<^verbatim>\<open>for (size_t i = 0; i < locks_.size(); ++i)\<close>, on \<^verbatim>\<open>buckets_\<close>, \<^verbatim>\<open>locks_\<close> and
      \<^verbatim>\<open>new_buckets\<close>.\<close>
  "migrate_refinable h new_capacity i buckets locks new_buckets =
     (if i < length locks then
        (case lock_at locks i of
           None \<Rightarrow> None
         | Some held \<Rightarrow>
             (case nth_opt buckets i of
                None \<Rightarrow> None
              | Some old_bucket \<Rightarrow>
                  (case rehash_bucket h new_capacity old_bucket new_buckets of
                     None \<Rightarrow> None
                   | Some nb \<Rightarrow>
                       migrate_refinable h new_capacity (i + 1) (buckets[i := []])
                         (unlock_at held i) nb)))
      else Some (buckets, locks, new_buckets))"
  by pat_completeness auto
termination
  by (relation "measure (\<lambda>(h, new_capacity, i, buckets, locks, new_buckets). length locks - i)")
     (auto simp: lock_at_def unlock_at_def split: if_splits)

definition Resize_refinable :: "('a \<Rightarrow> nat) \<Rightarrow> nat \<Rightarrow> 'a refinable \<Rightarrow> nat \<Rightarrow> 'a refinable option" where
  "Resize_refinable h me s requested =
     (if rf_resize_mutex s then None
      else do {
        let s0 = s\<lparr>rf_resize_mutex := True\<rparr>;
        let new_capacity = max kMinBuckets (NormalizeCapacity requested);
        if new_capacity = length (rf_buckets s0) then Some (s0\<lparr>rf_resize_mutex := False\<rparr>)
        else do {
          let s1 = s0\<lparr>rf_owner_tid_hash := me, rf_resizing := True\<rparr>;
          let new_locks = replicate new_capacity False;
          (old_buckets, old_locks, new_buckets) \<leftarrow>
            migrate_refinable h new_capacity 0 (rf_buckets s1) (rf_locks s1)
              (replicate new_capacity []);
          Some (s1\<lparr>rf_buckets := new_buckets, rf_locks := new_locks,
                   rf_version := size_t_inc (rf_version s1),
                   rf_resizing := False, rf_owner_tid_hash := 0,
                   rf_resize_mutex := False\<rparr>)
        }
      })"

partial_function (option) Add_refinable ::
  "('a \<Rightarrow> nat) \<Rightarrow> nat \<Rightarrow> 'a refinable \<Rightarrow> 'a \<Rightarrow> (bool \<times> 'a refinable) option" where
  "Add_refinable h me s elem =
     do {
       _ \<leftarrow> WaitIfResizingByOther s me 0;
       let ver_before = rf_version s;
       let cap = length (rf_buckets s);
       i \<leftarrow> umod (h elem) cap;
       held \<leftarrow> lock_at (rf_locks s) i;
       let s0 = s\<lparr>rf_locks := held\<rparr>;
       if ver_before \<noteq> rf_version s0 \<or> IsResizingByOther s0 me
       then Add_refinable h me (s0\<lparr>rf_locks := unlock_at held i\<rparr>) elem
       else do {
         let b = rf_buckets s0 ! i;
         if elem \<in> set b then Some (False, s0\<lparr>rf_locks := unlock_at held i\<rparr>)
         else do {
           let s1 = s0\<lparr>rf_buckets := (rf_buckets s0)[i := b @ [elem]],
                       rf_size := size_t_inc (rf_size s0)\<rparr>;
           let used_cap = cap;
           let s2 = s1\<lparr>rf_locks := unlock_at held i\<rparr>;
           let lf = real (rf_size s2) / real used_cap;
           if \<not> IsResizingByOther s2 me \<and> lf > kMaxLoadFactor
           then do {
             s3 \<leftarrow> Resize_refinable h me s2 (size_t_dbl used_cap);
             Some (True, s3)
           }
           else Some (True, s2)
         }
       }
     }"

partial_function (option) Remove_refinable ::
  "('a \<Rightarrow> nat) \<Rightarrow> nat \<Rightarrow> 'a refinable \<Rightarrow> 'a \<Rightarrow> (bool \<times> 'a refinable) option" where
  "Remove_refinable h me s elem =
     do {
       _ \<leftarrow> WaitIfResizingByOther s me 0;
       let ver_before = rf_version s;
       let cap = length (rf_buckets s);
       i \<leftarrow> umod (h elem) cap;
       held \<leftarrow> lock_at (rf_locks s) i;
       let s0 = s\<lparr>rf_locks := held\<rparr>;
       if ver_before \<noteq> rf_version s0 \<or> IsResizingByOther s0 me
       then Remove_refinable h me (s0\<lparr>rf_locks := unlock_at held i\<rparr>) elem
       else do {
         let b = rf_buckets s0 ! i;
         if elem \<notin> set b then Some (False, s0\<lparr>rf_locks := unlock_at held i\<rparr>)
         else do {
           let s1 = s0\<lparr>rf_buckets := (rf_buckets s0)[i := remove1 elem b],
                       rf_size := size_t_dec (rf_size s0)\<rparr>;
           let used_cap = cap;
           let s2 = s1\<lparr>rf_locks := unlock_at held i\<rparr>;
           let lf = real (rf_size s2) / real used_cap;
           if \<not> IsResizingByOther s2 me \<and> lf < kMinLoadFactor
           then do {
             s3 \<leftarrow> Resize_refinable h me s2 (max kMinBuckets (used_cap div 2));
             Some (True, s3)
           }
           else Some (True, s2)
         }
       }
     }"

partial_function (option) Contains_refinable ::
  "('a \<Rightarrow> nat) \<Rightarrow> nat \<Rightarrow> 'a refinable \<Rightarrow> 'a \<Rightarrow> (bool \<times> 'a refinable) option" where
  "Contains_refinable h me s elem =
     do {
       _ \<leftarrow> WaitIfResizingByOther s me 0;
       let ver_before = rf_version s;
       let cap = length (rf_buckets s);
       i \<leftarrow> umod (h elem) cap;
       held \<leftarrow> lock_at (rf_locks s) i;
       let s0 = s\<lparr>rf_locks := held\<rparr>;
       if ver_before \<noteq> rf_version s0 \<or> IsResizingByOther s0 me
       then Contains_refinable h me (s0\<lparr>rf_locks := unlock_at held i\<rparr>) elem
       else do {
         let b = rf_buckets s0 ! i;
         Some (elem \<in> set b, s0\<lparr>rf_locks := unlock_at held i\<rparr>)
       }
     }"

definition Size_refinable :: "'a refinable \<Rightarrow> (nat \<times> 'a refinable) option" where
  "Size_refinable s = Some (rf_size s, s)"

fun exec_refinable ::
  "('a \<Rightarrow> nat) \<Rightarrow> nat \<Rightarrow> 'a refinable \<Rightarrow> 'a call \<Rightarrow> (ret \<times> 'a refinable) option" where
  "exec_refinable h me s (AddCall v) =
     map_option (\<lambda>(r, s'). (RetBool r, s')) (Add_refinable h me s v)"
| "exec_refinable h me s (RemoveCall v) =
     map_option (\<lambda>(r, s'). (RetBool r, s')) (Remove_refinable h me s v)"
| "exec_refinable h me s (ContainsCall v) =
     map_option (\<lambda>(r, s'). (RetBool r, s')) (Contains_refinable h me s v)"
| "exec_refinable h me s SizeCall = map_option (\<lambda>(n, s'). (RetSize n, s')) (Size_refinable s)"

fun run_refinable ::
  "('a \<Rightarrow> nat) \<Rightarrow> nat \<Rightarrow> 'a refinable \<Rightarrow> 'a call list \<Rightarrow> 'a refinable option" where
  "run_refinable h me s [] = Some s"
| "run_refinable h me s (c # cs) =
     (case exec_refinable h me s c of None \<Rightarrow> None | Some (r, s') \<Rightarrow> run_refinable h me s' cs)"

subsection \<open>\<^verbatim>\<open>HashSetRefinable\<close>, the other draft (src/skeleton/src/hash_set_refinable.h)\<close>

record 'a refinable_sk =
  sk_buckets :: "'a list list"
  sk_size :: nat
  sk_locks :: "bool list"
  sk_resize_mutex :: bool
  sk_version :: nat
  sk_resizing :: bool
  sk_owner_tid_hash :: nat
  sk_old_lock_arrays :: "bool list list"

definition HashSetRefinable_sk :: "nat \<Rightarrow> 'a refinable_sk" where
  "HashSetRefinable_sk initial_capacity =
     (let buckets = replicate (max (NormalizeCapacity initial_capacity) kMinBuckets) [] in
      \<lparr>sk_buckets = buckets,
       sk_size = 0,
       sk_locks = replicate (length buckets) False,
       sk_resize_mutex = False,
       sk_version = 0,
       sk_resizing = False,
       sk_owner_tid_hash = 0,
       sk_old_lock_arrays = []\<rparr>)"

definition Index_sk :: "('a \<Rightarrow> nat) \<Rightarrow> 'a refinable_sk \<Rightarrow> 'a \<Rightarrow> nat option" where
  "Index_sk h s elem = umod (h elem) (length (sk_buckets s))"

partial_function (option) WaitIfResizingByOther_sk :: "'a refinable_sk \<Rightarrow> int \<Rightarrow> unit option" where
  "WaitIfResizingByOther_sk s spins =
     (if sk_resizing s then WaitIfResizingByOther_sk s (spins + 1) else Some ())"

function migrate_sk ::
  "('a \<Rightarrow> nat) \<Rightarrow> nat \<Rightarrow> nat \<Rightarrow> 'a list list \<Rightarrow> 'a list list \<Rightarrow> ('a list list \<times> 'a list list) option" where
  \<comment> \<open>\<^verbatim>\<open>for (size_t i = 0; i < buckets_.size(); ++i)\<close>, on \<^verbatim>\<open>buckets_\<close> and \<^verbatim>\<open>new_buckets\<close>.\<close>
  "migrate_sk h new_capacity i buckets new_buckets =
     (if i < length buckets then
        (case rehash_bucket h new_capacity (buckets ! i) new_buckets of
           None \<Rightarrow> None
         | Some nb \<Rightarrow> migrate_sk h new_capacity (i + 1) (buckets[i := []]) nb)
      else Some (buckets, new_buckets))"
  by pat_completeness auto
termination
  by (relation "measure (\<lambda>(h, new_capacity, i, buckets, new_buckets). length buckets - i)") auto

definition Resize_sk :: "('a \<Rightarrow> nat) \<Rightarrow> nat \<Rightarrow> 'a refinable_sk \<Rightarrow> nat \<Rightarrow> 'a refinable_sk option" where
  "Resize_sk h me s requested =
     (if sk_resize_mutex s then None
      else do {
        let s0 = s\<lparr>sk_resize_mutex := True\<rparr>;
        let new_capacity = max kMinBuckets (NormalizeCapacity requested);
        if new_capacity = length (sk_buckets s0) then Some (s0\<lparr>sk_resize_mutex := False\<rparr>)
        else do {
          let s1 = s0\<lparr>sk_owner_tid_hash := me, sk_resizing := True\<rparr>;
          let new_locks = replicate new_capacity False;
          all_locks \<leftarrow> lock_all (sk_locks s1);
          (old_buckets, new_buckets) \<leftarrow>
            migrate_sk h new_capacity 0 (sk_buckets s1) (replicate new_capacity []);
          Some (s1\<lparr>sk_buckets := new_buckets, sk_locks := new_locks,
                   sk_version := size_t_inc (sk_version s1),
                   sk_resizing := False, sk_owner_tid_hash := 0,
                   sk_old_lock_arrays := sk_old_lock_arrays s1 @ [unlock_all all_locks],
                   sk_resize_mutex := False\<rparr>)
        }
      })"

partial_function (option) Add_sk ::
  "('a \<Rightarrow> nat) \<Rightarrow> nat \<Rightarrow> 'a refinable_sk \<Rightarrow> 'a \<Rightarrow> (bool \<times> 'a refinable_sk) option" where
  "Add_sk h me s elem =
     do {
       _ \<leftarrow> WaitIfResizingByOther_sk s 0;
       let ver_before = sk_version s;
       let cap = length (sk_buckets s);
       i \<leftarrow> Index_sk h s elem;
       held \<leftarrow> lock_at (sk_locks s) i;
       let s0 = s\<lparr>sk_locks := held\<rparr>;
       if sk_version s0 \<noteq> ver_before
       then Add_sk h me (s0\<lparr>sk_locks := unlock_at held i\<rparr>) elem
       else do {
         let b = sk_buckets s0 ! i;
         if elem \<in> set b then Some (False, s0\<lparr>sk_locks := unlock_at held i\<rparr>)
         else do {
           let s1 = s0\<lparr>sk_buckets := (sk_buckets s0)[i := b @ [elem]],
                       sk_size := size_t_inc (sk_size s0)\<rparr>;
           let used_cap = cap;
           let s2 = s1\<lparr>sk_locks := unlock_at held i\<rparr>;
           let lf = real (sk_size s2) / real used_cap;
           if \<not> sk_resizing s2 \<and> lf > kMaxLoadFactor
           then do {
             s3 \<leftarrow> Resize_sk h me s2 (size_t_dbl used_cap);
             Some (True, s3)
           }
           else Some (True, s2)
         }
       }
     }"

partial_function (option) Remove_sk ::
  "('a \<Rightarrow> nat) \<Rightarrow> 'a refinable_sk \<Rightarrow> 'a \<Rightarrow> (bool \<times> 'a refinable_sk) option" where
  "Remove_sk h s elem =
     do {
       _ \<leftarrow> WaitIfResizingByOther_sk s 0;
       let ver_before = sk_version s;
       i \<leftarrow> Index_sk h s elem;
       held \<leftarrow> lock_at (sk_locks s) i;
       let s0 = s\<lparr>sk_locks := held\<rparr>;
       if sk_version s0 \<noteq> ver_before
       then Remove_sk h (s0\<lparr>sk_locks := unlock_at held i\<rparr>) elem
       else do {
         let b = sk_buckets s0 ! i;
         if elem \<notin> set b then Some (False, s0\<lparr>sk_locks := unlock_at held i\<rparr>)
         else do {
           let s1 = s0\<lparr>sk_buckets := (sk_buckets s0)[i := remove1 elem b],
                       sk_size := size_t_dec (sk_size s0)\<rparr>;
           Some (True, s1\<lparr>sk_locks := unlock_at held i\<rparr>)
         }
       }
     }"

partial_function (option) Contains_sk ::
  "('a \<Rightarrow> nat) \<Rightarrow> 'a refinable_sk \<Rightarrow> 'a \<Rightarrow> (bool \<times> 'a refinable_sk) option" where
  "Contains_sk h s elem =
     do {
       _ \<leftarrow> WaitIfResizingByOther_sk s 0;
       let ver_before = sk_version s;
       i \<leftarrow> Index_sk h s elem;
       held \<leftarrow> lock_at (sk_locks s) i;
       let s0 = s\<lparr>sk_locks := held\<rparr>;
       if sk_version s0 \<noteq> ver_before
       then Contains_sk h (s0\<lparr>sk_locks := unlock_at held i\<rparr>) elem
       else do {
         let b = sk_buckets s0 ! i;
         Some (elem \<in> set b, s0\<lparr>sk_locks := unlock_at held i\<rparr>)
       }
     }"

definition Size_sk :: "'a refinable_sk \<Rightarrow> (nat \<times> 'a refinable_sk) option" where
  "Size_sk s = Some (sk_size s, s)"

fun exec_sk ::
  "('a \<Rightarrow> nat) \<Rightarrow> nat \<Rightarrow> 'a refinable_sk \<Rightarrow> 'a call \<Rightarrow> (ret \<times> 'a refinable_sk) option" where
  "exec_sk h me s (AddCall v) = map_option (\<lambda>(r, s'). (RetBool r, s')) (Add_sk h me s v)"
| "exec_sk h me s (RemoveCall v) = map_option (\<lambda>(r, s'). (RetBool r, s')) (Remove_sk h s v)"
| "exec_sk h me s (ContainsCall v) = map_option (\<lambda>(r, s'). (RetBool r, s')) (Contains_sk h s v)"
| "exec_sk h me s SizeCall = map_option (\<lambda>(n, s'). (RetSize n, s')) (Size_sk s)"

fun run_sk ::
  "('a \<Rightarrow> nat) \<Rightarrow> nat \<Rightarrow> 'a refinable_sk \<Rightarrow> 'a call list \<Rightarrow> 'a refinable_sk option" where
  "run_sk h me s [] = Some s"
| "run_sk h me s (c # cs) =
     (case exec_sk h me s c of None \<Rightarrow> None | Some (r, s') \<Rightarrow> run_sk h me s' cs)"

text \<open>
  The counting loops are unfolded by hand, and the retry loops compute by their defining
  equations.
\<close>

declare migrate_refinable.simps [simp del] migrate_sk.simps [simp del]

declare
  Add_striped.simps [code]
  Remove_striped.simps [code]
  Contains_striped.simps [code]
  WaitIfResizingByOther.simps [code]
  Add_refinable.simps [code]
  Remove_refinable.simps [code]
  Contains_refinable.simps [code]
  WaitIfResizingByOther_sk.simps [code]
  Add_sk.simps [code]
  Remove_sk.simps [code]
  Contains_sk.simps [code]

subsection \<open>States between two calls\<close>

text \<open>
  A set is quiet when no call is in flight: no mutex is held and, for the refinable sets,
  no resize is announced.  The constructors build quiet sets and every call that returns
  on a quiet set leaves a quiet set.
\<close>

definition quiet_striped :: "'a striped \<Rightarrow> bool" where
  "quiet_striped s \<longleftrightarrow> True \<notin> set (st_locks s) \<and> \<not> st_resize_mutex s"

definition quiet_refinable :: "'a refinable \<Rightarrow> bool" where
  "quiet_refinable s \<longleftrightarrow> True \<notin> set (rf_locks s) \<and> \<not> rf_resize_mutex s \<and> \<not> rf_resizing s"

definition quiet_sk :: "'a refinable_sk \<Rightarrow> bool" where
  "quiet_sk s \<longleftrightarrow> True \<notin> set (sk_locks s) \<and> \<not> sk_resize_mutex s \<and> \<not> sk_resizing s"

section \<open>Properties\<close>

subsection \<open>The rehash loops and the bucket invariant\<close>

lemma umod_Some: "0 < n \<Longrightarrow> umod x n = Some (x mod n)"
  by (simp add: umod_def)

lemma umod_eq_Some: "umod x n = Some i \<longleftrightarrow> 0 < n \<and> i = x mod n"
  by (auto simp: umod_def)

lemma rehash_bucket_length:
  "rehash_bucket h n b nb = Some nb' \<Longrightarrow> length nb' = length nb"
  by (induction b arbitrary: nb) (auto split: option.splits)

lemma rehash_bucket_total:
  "0 < n \<Longrightarrow> \<exists>nb'. rehash_bucket h n b nb = Some nb'"
  by (induction b arbitrary: nb) (auto simp: umod_def)

lemma elements_iff: "v \<in> elements bs \<longleftrightarrow> (\<exists>i<length bs. v \<in> set (bs ! i))"
  by (simp add: elements_def) (metis in_set_conv_nth)

lemma elements_update_append:
  assumes "i < length bs"
  shows "elements (bs[i := bs ! i @ [v]]) = insert v (elements bs)"
proof (rule set_eqI)
  fix w
  have "(\<exists>j<length bs. w \<in> set (bs[i := bs ! i @ [v]] ! j)) \<longleftrightarrow> w = v \<or> (\<exists>j<length bs. w \<in> set (bs ! j))"
    (is "?L \<longleftrightarrow> ?R")
  proof
    assume ?L
    then obtain j where j: "j < length bs" "w \<in> set (bs[i := bs ! i @ [v]] ! j)" by blast
    show ?R
    proof (cases "j = i")
      case True
      with j assms have "w \<in> set (bs ! i) \<or> w = v" by auto
      with assms show ?thesis by blast
    next
      case False
      with j have "w \<in> set (bs ! j)" by simp
      with j show ?thesis by blast
    qed
  next
    assume ?R
    then show ?L
    proof
      assume "w = v"
      with assms have "w \<in> set (bs[i := bs ! i @ [v]] ! i)" by simp
      with assms show ?L by blast
    next
      assume "\<exists>j<length bs. w \<in> set (bs ! j)"
      then obtain j where j: "j < length bs" "w \<in> set (bs ! j)" by blast
      then have "w \<in> set (bs[i := bs ! i @ [v]] ! j)"
        by (cases "j = i") auto
      with j show ?L by blast
    qed
  qed
  then show "w \<in> elements (bs[i := bs ! i @ [v]]) \<longleftrightarrow> w \<in> insert v (elements bs)"
    by (simp add: elements_iff)
qed

lemma rehash_bucket_elements:
  "rehash_bucket h n b nb = Some nb' \<Longrightarrow> length nb = n \<Longrightarrow> elements nb' = elements nb \<union> set b"
proof (induction b arbitrary: nb)
  case Nil
  then show ?case by simp
next
  case (Cons v vs)
  from Cons.prems obtain i where i: "0 < n" "i = h v mod n"
    and r: "rehash_bucket h n vs (nb[i := nb ! i @ [v]]) = Some nb'"
    by (auto simp: umod_eq_Some split: option.splits)
  have "i < length nb" using i Cons.prems(2) by simp
  then show ?case
    using Cons.IH [OF r] Cons.prems(2) by (simp add: elements_update_append)
qed

lemma placed_iff:
  "placed h bs \<longleftrightarrow> (\<forall>i<length bs. \<forall>v\<in>set (bs ! i). h v mod length bs = i)"
  by (auto simp: placed_def)

lemma placed_update_append:
  assumes "placed h bs" and "i = h v mod length bs"
  shows "placed h (bs[i := bs ! i @ [v]])"
  unfolding placed_iff
proof (intro allI impI ballI)
  fix j w
  assume j: "j < length (bs[i := bs ! i @ [v]])" and w: "w \<in> set (bs[i := bs ! i @ [v]] ! j)"
  from j have jl: "j < length bs" by simp
  show "h w mod length (bs[i := bs ! i @ [v]]) = j"
  proof (cases "j = i")
    case True
    with w jl have "w \<in> set (bs ! i) \<or> w = v" by auto
    then show ?thesis using assms jl True by (auto simp: placed_iff)
  next
    case False
    with w have "w \<in> set (bs ! j)" by simp
    then show ?thesis using assms jl by (auto simp: placed_iff)
  qed
qed

lemma placed_update_remove1:
  assumes "placed h bs"
  shows "placed h (bs[i := remove1 v (bs ! i)])"
  unfolding placed_iff
proof (intro allI impI ballI)
  fix j w
  assume j: "j < length (bs[i := remove1 v (bs ! i)])"
    and w: "w \<in> set (bs[i := remove1 v (bs ! i)] ! j)"
  from j have jl: "j < length bs" by simp
  have "w \<in> set (bs ! j)"
  proof (cases "j = i")
    case True
    with w jl show ?thesis using set_remove1_subset [of v "bs ! i"] by auto
  next
    case False
    with w show ?thesis by simp
  qed
  then show "h w mod length (bs[i := remove1 v (bs ! i)]) = j"
    using assms jl by (auto simp: placed_iff)
qed

lemma rehash_bucket_placed:
  "rehash_bucket h n b nb = Some nb' \<Longrightarrow> length nb = n \<Longrightarrow> placed h nb \<Longrightarrow> placed h nb'"
proof (induction b arbitrary: nb)
  case Nil
  then show ?case by simp
next
  case (Cons v vs)
  from Cons.prems obtain i where i: "0 < n" "i = h v mod n"
    and r: "rehash_bucket h n vs (nb[i := nb ! i @ [v]]) = Some nb'"
    by (auto simp: umod_eq_Some split: option.splits)
  show ?case
    using Cons.IH [OF r] Cons.prems i by (simp add: placed_update_append)
qed

lemma rehash_buckets_length:
  "rehash_buckets h n bs nb = Some nb' \<Longrightarrow> length nb' = length nb"
  by (induction bs arbitrary: nb) (auto split: option.splits dest: rehash_bucket_length)

lemma rehash_buckets_total:
  "0 < n \<Longrightarrow> \<exists>nb'. rehash_buckets h n bs nb = Some nb'"
proof (induction bs arbitrary: nb)
  case Nil
  then show ?case by simp
next
  case (Cons b bs)
  from rehash_bucket_total [OF Cons.prems] obtain nb1 where "rehash_bucket h n b nb = Some nb1"
    by blast
  then show ?case using Cons.IH [OF Cons.prems, of nb1] by simp
qed

lemma elements_Cons: "elements (b # bs) = set b \<union> elements bs"
  by (simp add: elements_def)

lemma rehash_buckets_elements:
  "rehash_buckets h n bs nb = Some nb' \<Longrightarrow> length nb = n \<Longrightarrow> elements nb' = elements nb \<union> elements bs"
proof (induction bs arbitrary: nb)
  case Nil
  then show ?case by (simp add: elements_def)
next
  case (Cons b bs)
  from Cons.prems obtain nb1 where b: "rehash_bucket h n b nb = Some nb1"
    and r: "rehash_buckets h n bs nb1 = Some nb'"
    by (auto split: option.splits)
  have "length nb1 = n" using rehash_bucket_length [OF b] Cons.prems(2) by simp
  then show ?case
    using Cons.IH [OF r] rehash_bucket_elements [OF b Cons.prems(2)]
    by (auto simp: elements_Cons)
qed

lemma rehash_buckets_placed:
  "rehash_buckets h n bs nb = Some nb' \<Longrightarrow> length nb = n \<Longrightarrow> placed h nb \<Longrightarrow> placed h nb'"
proof (induction bs arbitrary: nb)
  case Nil
  then show ?case by simp
next
  case (Cons b bs)
  from Cons.prems obtain nb1 where b: "rehash_bucket h n b nb = Some nb1"
    and r: "rehash_buckets h n bs nb1 = Some nb'"
    by (auto split: option.splits)
  have "length nb1 = n" using rehash_bucket_length [OF b] Cons.prems(2) by simp
  then show ?case
    using Cons.IH [OF r] rehash_bucket_placed [OF b Cons.prems(2,3)] by simp
qed

lemma placed_replicate: "placed h (replicate n [])"
  by (simp add: placed_def)

lemma elements_replicate: "elements (replicate n []) = {}"
  by (auto simp: elements_def)

lemma placed_present:
  assumes "placed h bs" and "v \<in> elements bs"
  shows "0 < length bs \<and> v \<in> set (bs ! (h v mod length bs))"
proof -
  from assms(2) obtain i where i: "i < length bs" "v \<in> set (bs ! i)"
    by (auto simp: elements_iff)
  with assms(1) have "h v mod length bs = i" by (auto simp: placed_iff)
  with i show ?thesis by auto
qed

lemma elements_nth: "i < length bs \<Longrightarrow> v \<in> set (bs ! i) \<Longrightarrow> v \<in> elements bs"
  by (auto simp: elements_iff)

subsection \<open>The sequential set\<close>

lemma size_t_inc_lt: "size_t_inc n < 2 ^ 64"
  by (simp add: size_t_inc_def)

lemma load_gt_iff: "0 < B \<Longrightarrow> real n / real B > 4 \<longleftrightarrow> 4 * B < n"
  by (simp add: pos_less_divide_eq) (metis of_nat_less_iff of_nat_mult of_nat_numeral mult.commute)

lemma size_t_dbl_exact: "4 * B < n \<Longrightarrow> n < 2 ^ 64 \<Longrightarrow> size_t_dbl B = 2 * B"
  by (simp add: size_t_dbl_def)

lemma Resize_seq_ok:
  assumes "0 < new_cap"
  shows "\<exists>s'. Resize_seq h s new_cap = Some s' \<and> elements (sq_buckets s') = elements (sq_buckets s)
           \<and> sq_size s' = sq_size s \<and> length (sq_buckets s') = new_cap \<and> placed h (sq_buckets s')"
proof -
  from rehash_buckets_total [OF assms] obtain nb
    where nb: "rehash_buckets h new_cap (sq_buckets s) (replicate new_cap []) = Some nb" by blast
  have "length nb = new_cap" using rehash_buckets_length [OF nb] by simp
  moreover have "elements nb = elements (sq_buckets s)"
    using rehash_buckets_elements [OF nb] by (simp add: elements_replicate)
  moreover have "placed h nb"
    using rehash_buckets_placed [OF nb] by (simp add: placed_replicate)
  ultimately show ?thesis using nb by (simp add: Resize_seq_def)
qed

lemma Index_seq_Some: "0 < length (sq_buckets s) \<Longrightarrow> Index_seq h s v = Some (h v mod length (sq_buckets s))"
  by (simp add: Index_seq_def umod_def)

lemma Add_seq_present:
  assumes "placed h (sq_buckets s)" and "v \<in> elements (sq_buckets s)"
  shows "Add_seq h s v = Some (False, s)"
  using placed_present [OF assms] by (simp add: Add_seq_def Index_seq_Some)

lemma Add_seq_inv:
  assumes B: "0 < length (sq_buckets s)" and P: "placed h (sq_buckets s)"
  shows "\<exists>r s'. Add_seq h s v = Some (r, s') \<and> length (sq_buckets s) \<le> length (sq_buckets s')
           \<and> placed h (sq_buckets s') \<and> v \<in> elements (sq_buckets s')"
proof (cases "v \<in> set (sq_buckets s ! (h v mod length (sq_buckets s)))")
  case True
  then have "v \<in> elements (sq_buckets s)" using B by (intro elements_nth) simp_all
  with True show ?thesis using B P by (auto simp: Add_seq_def Index_seq_Some)
next
  case False
  define i where "i = h v mod length (sq_buckets s)"
  define s1 where "s1 = s\<lparr>sq_buckets := (sq_buckets s)[i := sq_buckets s ! i @ [v]],
                           sq_size := size_t_inc (sq_size s)\<rparr>"
  have P1: "placed h (sq_buckets s1)" and L1: "length (sq_buckets s1) = length (sq_buckets s)"
    using P by (simp_all add: s1_def i_def placed_update_append)
  have E1: "v \<in> elements (sq_buckets s1)"
    using B by (simp add: s1_def i_def elements_update_append)
  show ?thesis
  proof (cases "LoadFactor_seq s1 > kMaxLoadFactor")
    case lf: False
    then have "Add_seq h s v = Some (True, s1)"
      using False B by (simp add: Add_seq_def Index_seq_Some s1_def i_def Let_def)
    then show ?thesis using P1 L1 E1 by auto
  next
    case lf: True
    have "4 * length (sq_buckets s1) < sq_size s1"
      using lf B L1 load_gt_iff [of "length (sq_buckets s1)" "sq_size s1"]
      by (simp add: LoadFactor_seq_def kMaxLoadFactor_def)
    moreover have "sq_size s1 < 2 ^ 64" using size_t_inc_lt [of "sq_size s"] by (simp add: s1_def)
    ultimately have dbl: "size_t_dbl (length (sq_buckets s1)) = 2 * length (sq_buckets s1)"
      by (rule size_t_dbl_exact)
    with B L1 have "0 < size_t_dbl (length (sq_buckets s1))" by simp
    from Resize_seq_ok [OF this, of h s1] obtain s2
      where s2: "Resize_seq h s1 (size_t_dbl (length (sq_buckets s1))) = Some s2"
        "length (sq_buckets s2) = size_t_dbl (length (sq_buckets s1))" "placed h (sq_buckets s2)"
        "elements (sq_buckets s2) = elements (sq_buckets s1)"
      by blast
    have "Add_seq h s v = Some (True, s2)"
      using False B lf s2(1) by (simp add: Add_seq_def Index_seq_Some s1_def i_def Let_def)
    then show ?thesis using s2 dbl L1 E1 by auto
  qed
qed

lemma Remove_seq_inv:
  assumes B: "0 < length (sq_buckets s)" and P: "placed h (sq_buckets s)"
  shows "\<exists>r s'. Remove_seq h s v = Some (r, s') \<and> length (sq_buckets s') = length (sq_buckets s)
           \<and> placed h (sq_buckets s')"
  using B P by (auto simp: Remove_seq_def Index_seq_Some Let_def placed_update_remove1)

lemma Contains_seq_frame:
  "0 < length (sq_buckets s) \<Longrightarrow>
   Contains_seq h s v = Some (v \<in> set (sq_buckets s ! (h v mod length (sq_buckets s))), s)"
  by (simp add: Contains_seq_def Index_seq_Some)

lemma exec_seq_inv:
  assumes B: "0 < length (sq_buckets s)" and P: "placed h (sq_buckets s)"
  shows "\<exists>r s'. exec_seq h s c = Some (r, s') \<and> length (sq_buckets s) \<le> length (sq_buckets s')
           \<and> placed h (sq_buckets s')"
proof (cases c)
  case (AddCall v)
  then show ?thesis using Add_seq_inv [OF B P, of v] by auto
next
  case (RemoveCall v)
  then show ?thesis using Remove_seq_inv [OF B P, of v] by auto
next
  case (ContainsCall v)
  then show ?thesis using Contains_seq_frame [OF B, of h v] P by auto
next
  case SizeCall
  then show ?thesis using P by (simp add: Size_seq_def)
qed

lemma run_seq_inv:
  assumes "0 < length (sq_buckets s)" and "placed h (sq_buckets s)"
  shows "\<exists>s'. run_seq h s cs = Some s' \<and> length (sq_buckets s) \<le> length (sq_buckets s')
           \<and> placed h (sq_buckets s')"
  using assms
proof (induction cs arbitrary: s)
  case Nil
  then show ?case by simp
next
  case (Cons c cs)
  from exec_seq_inv [OF Cons.prems, of c] obtain r s1
    where s1: "exec_seq h s c = Some (r, s1)" "length (sq_buckets s) \<le> length (sq_buckets s1)"
      "placed h (sq_buckets s1)" by blast
  from Cons.prems(1) s1(2) have "0 < length (sq_buckets s1)" by (rule less_le_trans)
  from Cons.IH [OF this s1(3)] s1 show ?case by auto
qed

lemma HashSetSequential_init:
  "length (sq_buckets (HashSetSequential c)) = max c kMinBuckets
   \<and> placed h (sq_buckets (HashSetSequential c)) \<and> sq_size (HashSetSequential c) = 0"
  by (auto simp: HashSetSequential_def NormalizeCapacity_def placed_replicate)

subsection \<open>The coarse-grained set\<close>

lemma Index_coarse_Some:
  "0 < length (cg_buckets s) \<Longrightarrow> Index_coarse h s v = Some (h v mod length (cg_buckets s))"
  by (simp add: Index_coarse_def umod_def)

lemma Resize_coarse_placed:
  assumes "Resize_coarse h s n = Some s'"
  shows "placed h (cg_buckets s') \<and> cg_mutex s' = cg_mutex s"
proof -
  from assms obtain nb where nb: "rehash_buckets h n (cg_buckets s) (replicate n []) = Some nb"
    and s': "s' = s\<lparr>cg_buckets := nb\<rparr>"
    by (auto simp: Resize_coarse_def bind_eq_Some_conv)
  have "placed h nb" using rehash_buckets_placed [OF nb] by (simp add: placed_replicate)
  with s' show ?thesis by simp
qed

lemma unlock_coarse: "\<not> cg_mutex s \<Longrightarrow> s\<lparr>cg_mutex := True\<rparr>\<lparr>cg_mutex := False\<rparr> = s"
  by (cases s) simp

lemma Add_coarse_present:
  assumes "\<not> cg_mutex s" and "placed h (cg_buckets s)" and "v \<in> elements (cg_buckets s)"
  shows "Add_coarse h s v = Some (False, s)"
  using placed_present [OF assms(2,3)] assms(1)
  by (simp add: Add_coarse_def scoped_lock_coarse_def Index_coarse_Some unlock_coarse)

lemma Add_coarse_inv:
  assumes "Add_coarse h s v = Some (r, s')" and "placed h (cg_buckets s)"
  shows "\<not> cg_mutex s' \<and> placed h (cg_buckets s')"
  using assms
  by (auto simp: Add_coarse_def scoped_lock_coarse_def Index_coarse_def umod_eq_Some
      bind_eq_Some_conv Let_def placed_update_append
      split: if_splits dest!: Resize_coarse_placed)

lemma Resize_coarse_elements:
  assumes "Resize_coarse h s n = Some s'"
  shows "elements (cg_buckets s') = elements (cg_buckets s)"
proof -
  from assms obtain nb where nb: "rehash_buckets h n (cg_buckets s) (replicate n []) = Some nb"
    and s': "s' = s\<lparr>cg_buckets := nb\<rparr>"
    by (auto simp: Resize_coarse_def bind_eq_Some_conv)
  have "elements nb = elements (cg_buckets s)"
    using rehash_buckets_elements [OF nb] by (simp add: elements_replicate)
  with s' show ?thesis by simp
qed

lemma Add_coarse_member:
  assumes "Add_coarse h s v = Some (r, s')"
  shows "v \<in> elements (cg_buckets s')"
proof -
  from assms obtain i where i: "i < length (cg_buckets s)" "i = h v mod length (cg_buckets s)"
    by (auto simp: Add_coarse_def scoped_lock_coarse_def Index_coarse_def umod_eq_Some
        bind_eq_Some_conv split: if_splits)
  have a: "v \<in> set (cg_buckets s ! i) \<Longrightarrow> v \<in> elements (cg_buckets s)"
    using i(1) by (rule elements_nth)
  have b: "v \<in> elements ((cg_buckets s)[i := cg_buckets s ! i @ [v]])"
    using i(1) by (simp add: elements_update_append)
  show ?thesis
    using assms i a b
    by (auto simp: Add_coarse_def scoped_lock_coarse_def Index_coarse_def umod_eq_Some
        bind_eq_Some_conv Let_def split: if_splits dest!: Resize_coarse_elements)
qed

lemma Add_coarse_total:
  assumes M: "\<not> cg_mutex s" and B: "0 < length (cg_buckets s)"
  shows "\<exists>r t. Add_coarse h s v = Some (r, t)"
proof -
  define i where "i = h v mod length (cg_buckets s)"
  define s1 where "s1 = s\<lparr>cg_mutex := True,
      cg_buckets := (cg_buckets s)[i := cg_buckets s ! i @ [v]],
      cg_size := size_t_inc (cg_size s)\<rparr>"
  have L1: "length (cg_buckets s1) = length (cg_buckets s)" by (simp add: s1_def)
  show ?thesis
  proof (cases "v \<in> set (cg_buckets s ! i) \<or> \<not> LoadFactor_coarse s1 > 4")
    case True
    then show ?thesis
      using M B
      by (auto simp: Add_coarse_def scoped_lock_coarse_def Index_coarse_Some Let_def
          i_def [symmetric] s1_def [symmetric])
  next
    case False
    then have lf: "LoadFactor_coarse s1 > 4" and nf: "v \<notin> set (cg_buckets s ! i)" by simp_all
    have "4 * length (cg_buckets s1) < cg_size s1"
      using lf B L1 load_gt_iff [of "length (cg_buckets s1)" "cg_size s1"]
      by (simp add: LoadFactor_coarse_def)
    moreover have "cg_size s1 < 2 ^ 64" using size_t_inc_lt [of "cg_size s"] by (simp add: s1_def)
    ultimately have "size_t_dbl (length (cg_buckets s1)) = 2 * length (cg_buckets s1)"
      by (rule size_t_dbl_exact)
    with B L1 have "0 < size_t_dbl (length (cg_buckets s1))" by simp
    from rehash_buckets_total [OF this] obtain nb
      where "rehash_buckets h (size_t_dbl (length (cg_buckets s1))) (cg_buckets s1)
               (replicate (size_t_dbl (length (cg_buckets s1))) []) = Some nb" by blast
    then have "\<exists>s2. Resize_coarse h s1 (size_t_dbl (length (cg_buckets s1))) = Some s2"
      by (simp add: Resize_coarse_def)
    then show ?thesis
      using M B lf nf
      by (auto simp: Add_coarse_def scoped_lock_coarse_def Index_coarse_Some Let_def
          i_def [symmetric] s1_def [symmetric])
  qed
qed

lemma Remove_coarse_inv:
  assumes "Remove_coarse h s v = Some (r, s')" and "placed h (cg_buckets s)"
  shows "\<not> cg_mutex s' \<and> placed h (cg_buckets s')"
  using assms
  by (auto simp: Remove_coarse_def scoped_lock_coarse_def Index_coarse_def umod_eq_Some
      bind_eq_Some_conv Let_def placed_update_remove1
      split: if_splits dest!: Resize_coarse_placed)

lemma Contains_coarse_frame:
  "\<not> cg_mutex s \<Longrightarrow> 0 < length (cg_buckets s) \<Longrightarrow>
   Contains_coarse h s v = Some (v \<in> set (cg_buckets s ! (h v mod length (cg_buckets s))), s)"
  by (simp add: Contains_coarse_def scoped_lock_coarse_def Index_coarse_Some unlock_coarse)

lemma Contains_coarse_unchanged:
  "Contains_coarse h s v = Some (r, s') \<Longrightarrow> s' = s"
  by (auto simp: Contains_coarse_def scoped_lock_coarse_def bind_eq_Some_conv unlock_coarse
      split: if_splits)

lemma Size_coarse_frame: "\<not> cg_mutex s \<Longrightarrow> Size_coarse s = Some (cg_size s, s)"
  by (simp add: Size_coarse_def scoped_lock_coarse_def unlock_coarse)

lemma exec_coarse_inv:
  assumes "exec_coarse h s c = Some (r, s')" and "placed h (cg_buckets s)"
  shows "\<not> cg_mutex s' \<and> placed h (cg_buckets s')"
proof (cases c)
  case (AddCall v)
  then show ?thesis using assms Add_coarse_inv [of h s v] by auto
next
  case (RemoveCall v)
  then show ?thesis using assms Remove_coarse_inv [of h s v] by auto
next
  case (ContainsCall v)
  then show ?thesis using assms Contains_coarse_unchanged [of h s v]
    by (auto simp: Contains_coarse_def scoped_lock_coarse_def bind_eq_Some_conv split: if_splits)
next
  case SizeCall
  then show ?thesis using assms
    by (auto simp: Size_coarse_def scoped_lock_coarse_def bind_eq_Some_conv split: if_splits)
qed

lemma run_coarse_inv:
  assumes "run_coarse h s cs = Some s'" and "\<not> cg_mutex s" and "placed h (cg_buckets s)"
  shows "\<not> cg_mutex s' \<and> placed h (cg_buckets s')"
  using assms
proof (induction cs arbitrary: s)
  case Nil
  then show ?case by simp
next
  case (Cons c cs)
  from Cons.prems(1) obtain r s1 where s1: "exec_coarse h s c = Some (r, s1)"
    and rest: "run_coarse h s1 cs = Some s'"
    by (auto split: option.splits)
  from exec_coarse_inv [OF s1 Cons.prems(3)] Cons.IH [OF rest] show ?case by simp
qed

lemma HashSetCoarseGrained_init:
  "length (cg_buckets (HashSetCoarseGrained c)) = max c kMinBuckets
   \<and> placed h (cg_buckets (HashSetCoarseGrained c)) \<and> \<not> cg_mutex (HashSetCoarseGrained c)"
  by (auto simp: HashSetCoarseGrained_def NormalizeCapacity_def placed_replicate)

subsection \<open>Mutexes\<close>

lemma lock_at_Some:
  "lock_at ls i = Some held \<Longrightarrow> i < length ls \<and> length held = length ls \<and> unlock_at held i = ls"
  by (auto simp: lock_at_def unlock_at_def list_update_same_conv split: if_splits)

lemma lock_at_free:
  assumes "True \<notin> set ls" and "i < length ls"
  shows "lock_at ls i = Some (ls[i := True])"
proof -
  have "ls ! i \<in> set ls" using assms(2) by (rule nth_mem)
  with assms(1) have "\<not> ls ! i" by metis
  then show ?thesis using assms(2) by (simp add: lock_at_def)
qed

lemma lock_all_Some: "lock_all ls = Some held \<Longrightarrow> unlock_all held = ls"
  by (induction ls arbitrary: held) (auto simp: unlock_all_def split: if_splits option.splits)

lemma lock_all_free: "True \<notin> set ls \<Longrightarrow> \<exists>held. lock_all ls = Some held"
  by (induction ls) auto

subsection \<open>The striped set\<close>

lemma Index_striped_Some:
  "0 < length (st_buckets s) \<Longrightarrow> Index_striped h s v = Some (h v mod length (st_buckets s))"
  by (simp add: Index_striped_def umod_def)

lemma StripeOfBucket_Some:
  "0 < length (st_locks s) \<Longrightarrow> StripeOfBucket s b = Some (b mod length (st_locks s))"
  by (simp add: StripeOfBucket_def umod_def)

lemma Resize_striped_locks:
  "Resize_striped h s n = Some s' \<Longrightarrow> st_locks s' = st_locks s"
  by (auto simp: Resize_striped_def Let_def bind_eq_Some_conv lock_all_Some split: if_splits)

lemma Resize_striped_ok:
  assumes "quiet_striped s"
  shows "\<exists>s'. Resize_striped h s n = Some s' \<and> quiet_striped s' \<and> st_locks s' = st_locks s
           \<and> length (st_buckets s') = max kMinBuckets (NormalizeCapacity n)
           \<and> (placed h (st_buckets s) \<longrightarrow> placed h (st_buckets s'))
           \<and> elements (st_buckets s') = elements (st_buckets s) \<and> st_size s' = st_size s"
proof -
  define nc where "nc = max kMinBuckets (NormalizeCapacity n)"
  have free: "True \<notin> set (st_locks s)" and rm: "\<not> st_resize_mutex s"
    using assms by (simp_all add: quiet_striped_def)
  show ?thesis
  proof (cases "nc = length (st_buckets s)")
    case True
    have "s\<lparr>st_resize_mutex := True\<rparr>\<lparr>st_resize_mutex := False\<rparr> = s"
      using rm by (cases s) simp
    then have "Resize_striped h s n = Some s"
      using True rm by (simp add: Resize_striped_def nc_def Let_def)
    then show ?thesis using assms True by (simp add: nc_def)
  next
    case False
    have "0 < nc" by (simp add: nc_def kMinBuckets_def)
    from rehash_buckets_total [OF this] obtain nb
      where nb: "rehash_buckets h nc (st_buckets s) (replicate nc []) = Some nb" by blast
    from lock_all_free [OF free] obtain held where held: "lock_all (st_locks s) = Some held"
      by blast
    define s' where "s' = s\<lparr>st_resize_mutex := True\<rparr>\<lparr>st_buckets := nb, st_locks := unlock_all held,
                   st_resize_mutex := False\<rparr>"
    have r: "Resize_striped h s n = Some s'"
      using False rm nb held by (simp add: Resize_striped_def nc_def [symmetric] Let_def s'_def)
    have "length nb = nc" using rehash_buckets_length [OF nb] by simp
    moreover have "elements nb = elements (st_buckets s)"
      using rehash_buckets_elements [OF nb] by (simp add: elements_replicate)
    moreover have "placed h nb"
      using rehash_buckets_placed [OF nb] by (simp add: placed_replicate)
    moreover have "unlock_all held = st_locks s" using lock_all_Some [OF held] .
    ultimately show ?thesis using r free by (simp add: s'_def quiet_striped_def nc_def)
  qed
qed

lemma Contains_striped_ok:
  assumes "quiet_striped s" and "0 < length (st_locks s)" and "0 < length (st_buckets s)"
  shows "Contains_striped h s v
           = Some (v \<in> set (st_buckets s ! (h v mod length (st_buckets s))), s)"
proof -
  define i where "i = h v mod length (st_buckets s)"
  define stripe where "stripe = i mod length (st_locks s)"
  have free: "True \<notin> set (st_locks s)" using assms(1) by (simp add: quiet_striped_def)
  have l: "lock_at (st_locks s) stripe = Some ((st_locks s)[stripe := True])"
    using assms(2) by (intro lock_at_free [OF free]) (simp add: stripe_def)
  have u: "unlock_at ((st_locks s)[stripe := True]) stripe = st_locks s"
    using lock_at_Some [OF l] by simp
  show ?thesis
    by (subst Contains_striped.simps)
       (simp add: Index_striped_Some [OF assms(3)] StripeOfBucket_Some [OF assms(2)]
          i_def [symmetric] stripe_def [symmetric] l u Let_def)
qed

lemma Add_striped_present:
  assumes "quiet_striped s" and "0 < length (st_locks s)"
    and "placed h (st_buckets s)" and "v \<in> elements (st_buckets s)"
  shows "Add_striped h s v = Some (False, s)"
proof -
  define i where "i = h v mod length (st_buckets s)"
  define stripe where "stripe = i mod length (st_locks s)"
  from placed_present [OF assms(3,4)]
  have B: "0 < length (st_buckets s)" and m: "v \<in> set (st_buckets s ! i)" by (simp_all add: i_def)
  have free: "True \<notin> set (st_locks s)" using assms(1) by (simp add: quiet_striped_def)
  have l: "lock_at (st_locks s) stripe = Some ((st_locks s)[stripe := True])"
    using assms(2) by (intro lock_at_free [OF free]) (simp add: stripe_def)
  have u: "unlock_at ((st_locks s)[stripe := True]) stripe = st_locks s"
    using lock_at_Some [OF l] by simp
  show ?thesis
    by (subst Add_striped.simps)
       (simp add: Index_striped_Some [OF B] StripeOfBucket_Some [OF assms(2)]
          i_def [symmetric] stripe_def [symmetric] l u m Let_def)
qed

lemma Add_striped_ok:
  assumes q: "quiet_striped s" and L: "0 < length (st_locks s)"
    and B: "0 < length (st_buckets s)" and P: "placed h (st_buckets s)"
  shows "\<exists>r s'. Add_striped h s v = Some (r, s') \<and> quiet_striped s' \<and> st_locks s' = st_locks s
           \<and> 0 < length (st_buckets s') \<and> placed h (st_buckets s')
           \<and> v \<in> elements (st_buckets s')"
proof -
  define i where "i = h v mod length (st_buckets s)"
  define stripe where "stripe = i mod length (st_locks s)"
  have free: "True \<notin> set (st_locks s)" using q by (simp add: quiet_striped_def)
  have l: "lock_at (st_locks s) stripe = Some ((st_locks s)[stripe := True])"
    using L by (intro lock_at_free [OF free]) (simp add: stripe_def)
  have u: "unlock_at ((st_locks s)[stripe := True]) stripe = st_locks s"
    using lock_at_Some [OF l] by simp
  show ?thesis
  proof (cases "v \<in> set (st_buckets s ! i)")
    case True
    have "Add_striped h s v = Some (False, s)"
      by (subst Add_striped.simps)
         (simp add: Index_striped_Some [OF B] StripeOfBucket_Some [OF L]
            i_def [symmetric] stripe_def [symmetric] l u True Let_def)
    moreover have "v \<in> elements (st_buckets s)"
      using True B by (intro elements_nth [of i]) (simp_all add: i_def)
    ultimately show ?thesis using assms by auto
  next
    case False
    define s2 where "s2 = s\<lparr>st_buckets := (st_buckets s)[i := st_buckets s ! i @ [v]],
                             st_size := size_t_inc (st_size s)\<rparr>"
    have s2: "quiet_striped s2" "st_locks s2 = st_locks s" "0 < length (st_buckets s2)"
      "placed h (st_buckets s2)" "v \<in> elements (st_buckets s2)"
      using q B P
      by (simp_all add: s2_def quiet_striped_def placed_update_append i_def elements_update_append)
    have eq: "s\<lparr>st_locks := (st_locks s)[stripe := True],
                st_buckets := (st_buckets s)[i := st_buckets s ! i @ [v]],
                st_size := size_t_inc (st_size s), st_locks := st_locks s\<rparr> = s2"
      by (cases s) (simp add: s2_def)
    show ?thesis
    proof (cases "LoadFactor_striped s2 > kMaxLoadFactor")
      case lf: False
      have "Add_striped h s v = Some (True, s2)"
        using lf
        by (subst Add_striped.simps)
           (simp add: Index_striped_Some [OF B] StripeOfBucket_Some [OF L]
              i_def [symmetric] stripe_def [symmetric] l u False Let_def eq)
      then show ?thesis using s2 by auto
    next
      case lf: True
      from Resize_striped_ok [OF s2(1), of h "size_t_dbl (length (st_buckets s2))"] obtain s3
        where s3: "Resize_striped h s2 (size_t_dbl (length (st_buckets s2))) = Some s3"
          "quiet_striped s3" "st_locks s3 = st_locks s2"
          "length (st_buckets s3) = max kMinBuckets (NormalizeCapacity (size_t_dbl (length (st_buckets s2))))"
          "placed h (st_buckets s3)" "elements (st_buckets s3) = elements (st_buckets s2)"
        using s2(4) by blast
      have "Add_striped h s v = Some (True, s3)"
        using lf s3(1)
        by (subst Add_striped.simps)
           (simp add: Index_striped_Some [OF B] StripeOfBucket_Some [OF L]
              i_def [symmetric] stripe_def [symmetric] l u False Let_def eq)
      moreover have "0 < length (st_buckets s3)" using s3(4) by (simp add: kMinBuckets_def)
      ultimately show ?thesis using s3 s2 by auto
    qed
  qed
qed

lemma Remove_striped_ok:
  assumes q: "quiet_striped s" and L: "0 < length (st_locks s)"
    and B: "0 < length (st_buckets s)" and P: "placed h (st_buckets s)"
  shows "\<exists>r s'. Remove_striped h s v = Some (r, s') \<and> quiet_striped s' \<and> st_locks s' = st_locks s
           \<and> 0 < length (st_buckets s') \<and> placed h (st_buckets s')"
proof -
  define i where "i = h v mod length (st_buckets s)"
  define stripe where "stripe = i mod length (st_locks s)"
  have free: "True \<notin> set (st_locks s)" using q by (simp add: quiet_striped_def)
  have l: "lock_at (st_locks s) stripe = Some ((st_locks s)[stripe := True])"
    using L by (intro lock_at_free [OF free]) (simp add: stripe_def)
  have u: "unlock_at ((st_locks s)[stripe := True]) stripe = st_locks s"
    using lock_at_Some [OF l] by simp
  show ?thesis
  proof (cases "v \<in> set (st_buckets s ! i)")
    case False
    have "Remove_striped h s v = Some (False, s)"
      by (subst Remove_striped.simps)
         (simp add: Index_striped_Some [OF B] StripeOfBucket_Some [OF L]
            i_def [symmetric] stripe_def [symmetric] l u False Let_def)
    then show ?thesis using assms by auto
  next
    case True
    define s2 where "s2 = s\<lparr>st_buckets := (st_buckets s)[i := remove1 v (st_buckets s ! i)],
                             st_size := size_t_dec (st_size s)\<rparr>"
    have s2: "quiet_striped s2" "st_locks s2 = st_locks s" "0 < length (st_buckets s2)"
      "placed h (st_buckets s2)"
      using q B P by (simp_all add: s2_def quiet_striped_def placed_update_remove1)
    have len2: "length (st_buckets s2) = length (st_buckets s)" by (simp add: s2_def)
    have eq: "s\<lparr>st_locks := (st_locks s)[stripe := True],
                st_buckets := (st_buckets s)[i := remove1 v (st_buckets s ! i)],
                st_size := size_t_dec (st_size s), st_locks := st_locks s\<rparr> = s2"
      by (cases s) (simp add: s2_def)
    show ?thesis
    proof (cases "LoadFactor_striped s2 < 1 \<and> length (st_buckets s2) > kMinBuckets")
      case lf: False
      have "Remove_striped h s v = Some (True, s2)"
        using lf
        by (subst Remove_striped.simps)
           (auto simp: Index_striped_Some [OF B] StripeOfBucket_Some [OF L]
              i_def [symmetric] stripe_def [symmetric] l u True Let_def eq len2)
      then show ?thesis using s2 by auto
    next
      case lf: True
      from Resize_striped_ok [OF s2(1), of h "length (st_buckets s2) div 2"] obtain s3
        where s3: "Resize_striped h s2 (length (st_buckets s2) div 2) = Some s3"
          "quiet_striped s3" "st_locks s3 = st_locks s2"
          "length (st_buckets s3) = max kMinBuckets (NormalizeCapacity (length (st_buckets s2) div 2))"
          "placed h (st_buckets s3)"
        using s2(4) by blast
      have "Remove_striped h s v = Some (True, s3)"
        using lf s3(1)
        by (subst Remove_striped.simps)
           (simp add: Index_striped_Some [OF B] StripeOfBucket_Some [OF L]
              i_def [symmetric] stripe_def [symmetric] l u True Let_def eq len2)
      moreover have "0 < length (st_buckets s3)" using s3(4) by (simp add: kMinBuckets_def)
      ultimately show ?thesis using s3 s2 by auto
    qed
  qed
qed

lemma exec_striped_ok:
  assumes q: "quiet_striped s" and L: "0 < length (st_locks s)"
    and B: "0 < length (st_buckets s)" and P: "placed h (st_buckets s)"
  shows "\<exists>r s'. exec_striped h s c = Some (r, s') \<and> quiet_striped s' \<and> st_locks s' = st_locks s
           \<and> 0 < length (st_buckets s') \<and> placed h (st_buckets s')"
proof (cases c)
  case (AddCall v)
  then show ?thesis using Add_striped_ok [OF assms, of v] by auto
next
  case (RemoveCall v)
  then show ?thesis using Remove_striped_ok [OF assms, of v] by auto
next
  case (ContainsCall v)
  then show ?thesis using Contains_striped_ok [OF q L B, of h v] assms by auto
next
  case SizeCall
  then show ?thesis using assms by (simp add: Size_striped_def)
qed

lemma run_striped_ok:
  assumes "quiet_striped s" and "0 < length (st_locks s)"
    and "0 < length (st_buckets s)" and "placed h (st_buckets s)"
  shows "\<exists>s'. run_striped h s cs = Some s' \<and> quiet_striped s' \<and> st_locks s' = st_locks s
           \<and> 0 < length (st_buckets s') \<and> placed h (st_buckets s')"
  using assms
proof (induction cs arbitrary: s)
  case Nil
  then show ?case by simp
next
  case (Cons c cs)
  from exec_striped_ok [OF Cons.prems, of c] obtain r s1
    where s1: "exec_striped h s c = Some (r, s1)" "quiet_striped s1" "st_locks s1 = st_locks s"
      "0 < length (st_buckets s1)" "placed h (st_buckets s1)" by blast
  from s1(3) Cons.prems(2) have "0 < length (st_locks s1)" by simp
  from Cons.IH [OF s1(2) this s1(4,5)] s1(1,3) show ?case by auto
qed

lemma HashSetStriped_init:
  "quiet_striped (HashSetStriped c S)
   \<and> length (st_locks (HashSetStriped c S)) = (if S = 0 then 64 else S)
   \<and> length (st_buckets (HashSetStriped c S)) = max c kMinBuckets
   \<and> placed h (st_buckets (HashSetStriped c S))"
  by (auto simp: HashSetStriped_def quiet_striped_def NormalizeCapacity_def placed_replicate)

subsection \<open>The refinable set\<close>

lemma WaitIfResizingByOther_quiet:
  "\<not> IsResizingByOther s me \<Longrightarrow> WaitIfResizingByOther s me n = Some ()"
  by (subst WaitIfResizingByOther.simps) simp

lemma quiet_not_resizing: "quiet_refinable s \<Longrightarrow> \<not> IsResizingByOther s me"
  by (simp add: quiet_refinable_def IsResizingByOther_def)

lemma elements_drop_Suc:
  "i < length bs \<Longrightarrow> elements (drop i bs) = set (bs ! i) \<union> elements (drop (Suc i) bs)"
  by (simp add: Cons_nth_drop_Suc [symmetric] elements_Cons)

lemma migrate_refinable_done:
  "\<not> i < length ls \<Longrightarrow> migrate_refinable h nc i bs ls nb = Some (bs, ls, nb)"
  by (subst migrate_refinable.simps) simp

lemma migrate_refinable_step:
  "i < length ls \<Longrightarrow> migrate_refinable h nc i bs ls nb =
     (case lock_at ls i of
        None \<Rightarrow> None
      | Some held \<Rightarrow>
          (case nth_opt bs i of
             None \<Rightarrow> None
           | Some old_bucket \<Rightarrow>
               (case rehash_bucket h nc old_bucket nb of
                  None \<Rightarrow> None
                | Some nb1 \<Rightarrow>
                    migrate_refinable h nc (i + 1) (bs[i := []]) (unlock_at held i) nb1)))"
  by (subst migrate_refinable.simps) simp

lemma migrate_refinable_length:
  "migrate_refinable h nc i bs ls nb = Some (bs', ls', nb') \<Longrightarrow> length nb' = length nb"
proof (induction h nc i bs ls nb rule: migrate_refinable.induct)
  case (1 h nc i bs ls nb)
  show ?case
  proof (cases "i < length ls")
    case False
    with "1.prems" show ?thesis by (simp add: migrate_refinable_done)
  next
    case True
    with "1.prems" obtain held old nb1 where st: "lock_at ls i = Some held" "nth_opt bs i = Some old"
      "rehash_bucket h nc old nb = Some nb1"
      and r: "migrate_refinable h nc (i + 1) (bs[i := []]) (unlock_at held i) nb1 = Some (bs', ls', nb')"
      by (auto simp: migrate_refinable_step split: option.splits)
    from "1.IH" [OF True st r] rehash_bucket_length [OF st(3)] show ?thesis by simp
  qed
qed

lemma migrate_refinable_ok:
  assumes "True \<notin> set ls" and "length ls = length bs" and "0 < nc" and "length nb = nc"
  shows "\<exists>bs' ls' nb'. migrate_refinable h nc i bs ls nb = Some (bs', ls', nb')
           \<and> elements nb' = elements nb \<union> elements (drop i bs)
           \<and> (placed h nb \<longrightarrow> placed h nb')"
  using assms
proof (induction h nc i bs ls nb rule: migrate_refinable.induct)
  case (1 h nc i bs ls nb)
  show ?case
  proof (cases "i < length ls")
    case False
    with "1.prems" show ?thesis by (simp add: migrate_refinable_done elements_def)
  next
    case True
    have l: "lock_at ls i = Some (ls[i := True])"
      using lock_at_free [OF "1.prems"(1) True] .
    have u: "unlock_at (ls[i := True]) i = ls" using lock_at_Some [OF l] by simp
    have n: "nth_opt bs i = Some (bs ! i)" using True "1.prems"(2) by (simp add: nth_opt_def)
    from rehash_bucket_total [OF "1.prems"(3)] obtain nb1
      where nb1: "rehash_bucket h nc (bs ! i) nb = Some nb1" by blast
    have len1: "length nb1 = nc" using rehash_bucket_length [OF nb1] "1.prems"(4) by simp
    have "\<exists>bs' ls' nb'. migrate_refinable h nc (i + 1) (bs[i := []]) (unlock_at (ls[i := True]) i) nb1
              = Some (bs', ls', nb')
           \<and> elements nb' = elements nb1 \<union> elements (drop (i + 1) (bs[i := []]))
           \<and> (placed h nb1 \<longrightarrow> placed h nb')"
      using "1.IH" [OF True l n nb1] "1.prems" len1 by (simp add: u)
    then obtain bs' ls' nb'
      where r: "migrate_refinable h nc (i + 1) (bs[i := []]) ls nb1 = Some (bs', ls', nb')"
        and e: "elements nb' = elements nb1 \<union> elements (drop (Suc i) bs)"
        and p: "placed h nb1 \<longrightarrow> placed h nb'"
      by (auto simp: u)
    have m: "migrate_refinable h nc i bs ls nb = Some (bs', ls', nb')"
      using True l n nb1 r u by (simp add: migrate_refinable_step)
    have "elements nb1 = elements nb \<union> set (bs ! i)"
      using rehash_bucket_elements [OF nb1 "1.prems"(4)] .
    with e have "elements nb' = elements nb \<union> elements (drop i bs)"
      using elements_drop_Suc [of i bs] True "1.prems"(2) by auto
    moreover have "placed h nb \<longrightarrow> placed h nb'"
      using p rehash_bucket_placed [OF nb1 "1.prems"(4)] by blast
    ultimately show ?thesis using m by blast
  qed
qed

lemma Resize_refinable_length:
  assumes "Resize_refinable h me s n = Some s'" and "length (rf_locks s) = length (rf_buckets s)"
  shows "length (rf_locks s') = length (rf_buckets s')"
  using assms
  by (auto simp: Resize_refinable_def Let_def bind_eq_Some_conv
      split: if_splits dest!: migrate_refinable_length)

lemma Resize_refinable_ok:
  assumes q: "quiet_refinable s" and len: "length (rf_locks s) = length (rf_buckets s)"
  shows "\<exists>s'. Resize_refinable h me s n = Some s' \<and> quiet_refinable s'
           \<and> length (rf_locks s') = length (rf_buckets s')
           \<and> length (rf_buckets s') = max kMinBuckets (NormalizeCapacity n)
           \<and> (placed h (rf_buckets s) \<longrightarrow> placed h (rf_buckets s'))
           \<and> elements (rf_buckets s') = elements (rf_buckets s) \<and> rf_size s' = rf_size s"
proof -
  define nc where "nc = max kMinBuckets (NormalizeCapacity n)"
  have free: "True \<notin> set (rf_locks s)" and rm: "\<not> rf_resize_mutex s" and rz: "\<not> rf_resizing s"
    using q by (simp_all add: quiet_refinable_def)
  show ?thesis
  proof (cases "nc = length (rf_buckets s)")
    case True
    have "s\<lparr>rf_resize_mutex := True\<rparr>\<lparr>rf_resize_mutex := False\<rparr> = s"
      using rm by (cases s) simp
    then have "Resize_refinable h me s n = Some s"
      using True rm by (simp add: Resize_refinable_def nc_def Let_def)
    then show ?thesis using assms True by (simp add: nc_def)
  next
    case False
    have pos: "0 < nc" by (simp add: nc_def kMinBuckets_def)
    from migrate_refinable_ok [OF free len pos, of "replicate nc []" h 0] obtain bs' ls' nb'
      where m: "migrate_refinable h nc 0 (rf_buckets s) (rf_locks s) (replicate nc []) = Some (bs', ls', nb')"
        and e: "elements nb' = elements (rf_buckets s)" and p: "placed h nb'"
      by (auto simp: elements_replicate placed_replicate)
    have l: "length nb' = nc" using migrate_refinable_length [OF m] by simp
    define s' where "s' = s\<lparr>rf_resize_mutex := True, rf_owner_tid_hash := me, rf_resizing := True,
        rf_buckets := nb', rf_locks := replicate nc False,
        rf_version := size_t_inc (rf_version s), rf_resizing := False, rf_owner_tid_hash := 0,
        rf_resize_mutex := False\<rparr>"
    have r: "Resize_refinable h me s n = Some s'"
      using False rm m by (simp add: Resize_refinable_def nc_def [symmetric] Let_def s'_def)
    show ?thesis using r e p l by (simp add: s'_def quiet_refinable_def nc_def)
  qed
qed

lemma Contains_refinable_ok:
  assumes q: "quiet_refinable s" and len: "length (rf_locks s) = length (rf_buckets s)"
    and B: "0 < length (rf_buckets s)"
  shows "Contains_refinable h me s v
           = Some (v \<in> set (rf_buckets s ! (h v mod length (rf_buckets s))), s)"
proof -
  define i where "i = h v mod length (rf_buckets s)"
  have free: "True \<notin> set (rf_locks s)" using q by (simp add: quiet_refinable_def)
  have nr: "\<not> IsResizingByOther s me" using q by (rule quiet_not_resizing)
  have rz: "\<not> rf_resizing s" using q by (simp add: quiet_refinable_def)
  have l: "lock_at (rf_locks s) i = Some ((rf_locks s)[i := True])"
    using B len by (intro lock_at_free [OF free]) (simp add: i_def)
  have u: "unlock_at ((rf_locks s)[i := True]) i = rf_locks s"
    using lock_at_Some [OF l] by simp
  show ?thesis
    by (subst Contains_refinable.simps)
       (simp add: WaitIfResizingByOther_quiet [OF nr] umod_Some [OF B] i_def [symmetric]
          l u rz IsResizingByOther_def Let_def)
qed

lemma Add_refinable_present:
  assumes q: "quiet_refinable s" and len: "length (rf_locks s) = length (rf_buckets s)"
    and P: "placed h (rf_buckets s)" and v: "v \<in> elements (rf_buckets s)"
  shows "Add_refinable h me s v = Some (False, s)"
proof -
  define i where "i = h v mod length (rf_buckets s)"
  from placed_present [OF P v]
  have B: "0 < length (rf_buckets s)" and m: "v \<in> set (rf_buckets s ! i)" by (simp_all add: i_def)
  have free: "True \<notin> set (rf_locks s)" using q by (simp add: quiet_refinable_def)
  have nr: "\<not> IsResizingByOther s me" using q by (rule quiet_not_resizing)
  have rz: "\<not> rf_resizing s" using q by (simp add: quiet_refinable_def)
  have l: "lock_at (rf_locks s) i = Some ((rf_locks s)[i := True])"
    using B len by (intro lock_at_free [OF free]) (simp add: i_def)
  have u: "unlock_at ((rf_locks s)[i := True]) i = rf_locks s"
    using lock_at_Some [OF l] by simp
  show ?thesis
    by (subst Add_refinable.simps)
       (simp add: WaitIfResizingByOther_quiet [OF nr] umod_Some [OF B] i_def [symmetric]
          l u rz IsResizingByOther_def m Let_def)
qed

lemma Add_refinable_ok:
  assumes q: "quiet_refinable s" and len: "length (rf_locks s) = length (rf_buckets s)"
    and B: "0 < length (rf_buckets s)" and P: "placed h (rf_buckets s)"
  shows "\<exists>r s'. Add_refinable h me s v = Some (r, s') \<and> quiet_refinable s'
           \<and> length (rf_locks s') = length (rf_buckets s')
           \<and> 0 < length (rf_buckets s') \<and> placed h (rf_buckets s')
           \<and> v \<in> elements (rf_buckets s')"
proof -
  define i where "i = h v mod length (rf_buckets s)"
  have free: "True \<notin> set (rf_locks s)" using q by (simp add: quiet_refinable_def)
  have nr: "\<not> IsResizingByOther s me" using q by (rule quiet_not_resizing)
  have rz: "\<not> rf_resizing s" using q by (simp add: quiet_refinable_def)
  have l: "lock_at (rf_locks s) i = Some ((rf_locks s)[i := True])"
    using B len by (intro lock_at_free [OF free]) (simp add: i_def)
  have u: "unlock_at ((rf_locks s)[i := True]) i = rf_locks s"
    using lock_at_Some [OF l] by simp
  show ?thesis
  proof (cases "v \<in> set (rf_buckets s ! i)")
    case True
    have "Add_refinable h me s v = Some (False, s)"
      by (subst Add_refinable.simps)
         (simp add: WaitIfResizingByOther_quiet [OF nr] umod_Some [OF B] i_def [symmetric]
            l u rz IsResizingByOther_def True Let_def)
    moreover have "v \<in> elements (rf_buckets s)"
      using True B by (intro elements_nth [of i]) (simp_all add: i_def)
    ultimately show ?thesis using assms by auto
  next
    case False
    define s2 where "s2 = s\<lparr>rf_buckets := (rf_buckets s)[i := rf_buckets s ! i @ [v]],
                             rf_size := size_t_inc (rf_size s)\<rparr>"
    have s2: "quiet_refinable s2" "length (rf_locks s2) = length (rf_buckets s2)"
      "0 < length (rf_buckets s2)" "placed h (rf_buckets s2)" "v \<in> elements (rf_buckets s2)"
      using q len B P
      by (simp_all add: s2_def quiet_refinable_def placed_update_append i_def
          elements_update_append)
    have nr2: "\<not> IsResizingByOther s2 me" using s2(1) by (rule quiet_not_resizing)
    have eq: "s\<lparr>rf_locks := (rf_locks s)[i := True],
                rf_buckets := (rf_buckets s)[i := rf_buckets s ! i @ [v]],
                rf_size := size_t_inc (rf_size s), rf_locks := rf_locks s\<rparr> = s2"
      by (cases s) (simp add: s2_def)
    have sz: "rf_size s2 = size_t_inc (rf_size s)" by (simp add: s2_def)
    show ?thesis
    proof (cases "real (rf_size s2) / real (length (rf_buckets s)) > kMaxLoadFactor")
      case lf: False
      have "Add_refinable h me s v = Some (True, s2)"
        using lf
        by (subst Add_refinable.simps)
           (simp add: WaitIfResizingByOther_quiet [OF nr] umod_Some [OF B] i_def [symmetric]
              l u rz IsResizingByOther_def False Let_def eq sz)
      then show ?thesis using s2 by auto
    next
      case lf: True
      from Resize_refinable_ok [OF s2(1,2), of h me "size_t_dbl (length (rf_buckets s))"] obtain s3
        where s3: "Resize_refinable h me s2 (size_t_dbl (length (rf_buckets s))) = Some s3"
          "quiet_refinable s3" "length (rf_locks s3) = length (rf_buckets s3)"
          "length (rf_buckets s3) = max kMinBuckets (NormalizeCapacity (size_t_dbl (length (rf_buckets s))))"
          "placed h (rf_buckets s3)" "elements (rf_buckets s3) = elements (rf_buckets s2)"
        using s2(4) by blast
      have "Add_refinable h me s v = Some (True, s3)"
        using lf s3(1)
        by (subst Add_refinable.simps)
           (simp add: WaitIfResizingByOther_quiet [OF nr] umod_Some [OF B] i_def [symmetric]
              l u rz IsResizingByOther_def False Let_def eq sz)
      moreover have "0 < length (rf_buckets s3)" using s3(4) by (simp add: kMinBuckets_def)
      ultimately show ?thesis using s3 s2(5) by auto
    qed
  qed
qed

lemma Remove_refinable_absent:
  assumes q: "quiet_refinable s" and len: "length (rf_locks s) = length (rf_buckets s)"
    and B: "0 < length (rf_buckets s)"
    and v: "v \<notin> set (rf_buckets s ! (h v mod length (rf_buckets s)))"
  shows "Remove_refinable h me s v = Some (False, s)"
proof -
  define i where "i = h v mod length (rf_buckets s)"
  have free: "True \<notin> set (rf_locks s)" using q by (simp add: quiet_refinable_def)
  have nr: "\<not> IsResizingByOther s me" using q by (rule quiet_not_resizing)
  have rz: "\<not> rf_resizing s" using q by (simp add: quiet_refinable_def)
  have l: "lock_at (rf_locks s) i = Some ((rf_locks s)[i := True])"
    using B len by (intro lock_at_free [OF free]) (simp add: i_def)
  have u: "unlock_at ((rf_locks s)[i := True]) i = rf_locks s"
    using lock_at_Some [OF l] by simp
  show ?thesis
    using v
    by (subst Remove_refinable.simps)
       (simp add: WaitIfResizingByOther_quiet [OF nr] umod_Some [OF B] i_def [symmetric]
          l u rz IsResizingByOther_def Let_def)
qed

lemma Remove_refinable_shrinks:
  assumes q: "quiet_refinable s" and len: "length (rf_locks s) = length (rf_buckets s)"
    and B: "0 < length (rf_buckets s)"
    and v: "v \<in> set (rf_buckets s ! (h v mod length (rf_buckets s)))"
  shows "Remove_refinable h me s v =
           (let i = h v mod length (rf_buckets s);
                s2 = s\<lparr>rf_buckets := (rf_buckets s)[i := remove1 v (rf_buckets s ! i)],
                       rf_size := size_t_dec (rf_size s)\<rparr>
            in if real (rf_size s2) / real (length (rf_buckets s)) < 1
               then map_option (Pair True)
                      (Resize_refinable h me s2 (max kMinBuckets (length (rf_buckets s) div 2)))
               else Some (True, s2))"
proof -
  define i where "i = h v mod length (rf_buckets s)"
  define s2 where "s2 = s\<lparr>rf_buckets := (rf_buckets s)[i := remove1 v (rf_buckets s ! i)],
                           rf_size := size_t_dec (rf_size s)\<rparr>"
  have free: "True \<notin> set (rf_locks s)" using q by (simp add: quiet_refinable_def)
  have nr: "\<not> IsResizingByOther s me" using q by (rule quiet_not_resizing)
  have rz: "\<not> rf_resizing s" using q by (simp add: quiet_refinable_def)
  have l: "lock_at (rf_locks s) i = Some ((rf_locks s)[i := True])"
    using B len by (intro lock_at_free [OF free]) (simp add: i_def)
  have u: "unlock_at ((rf_locks s)[i := True]) i = rf_locks s"
    using lock_at_Some [OF l] by simp
  have q2: "quiet_refinable s2" using q by (simp add: s2_def quiet_refinable_def)
  have nr2: "\<not> IsResizingByOther s2 me" using q2 by (rule quiet_not_resizing)
  have eq: "s\<lparr>rf_locks := (rf_locks s)[i := True],
              rf_buckets := (rf_buckets s)[i := remove1 v (rf_buckets s ! i)],
              rf_size := size_t_dec (rf_size s), rf_locks := rf_locks s\<rparr> = s2"
    by (cases s) (simp add: s2_def)
  have sz: "rf_size s2 = size_t_dec (rf_size s)" by (simp add: s2_def)
  have m: "v \<in> set (rf_buckets s ! i)" using v by (simp add: i_def)
  have "Remove_refinable h me s v =
          (if real (size_t_dec (rf_size s)) / real (length (rf_buckets s)) < 1
           then map_option (Pair True)
                  (Resize_refinable h me s2 (max kMinBuckets (length (rf_buckets s) div 2)))
           else Some (True, s2))"
    by (subst Remove_refinable.simps)
       (simp add: WaitIfResizingByOther_quiet [OF nr] umod_Some [OF B] i_def [symmetric]
          l u rz IsResizingByOther_def m Let_def eq sz kMinLoadFactor_def map_option_case bind_eq_None_conv
          split: option.splits)
  then show ?thesis by (simp add: Let_def i_def [symmetric] s2_def [symmetric])
qed

lemma Remove_refinable_ok:
  assumes q: "quiet_refinable s" and len: "length (rf_locks s) = length (rf_buckets s)"
    and B: "0 < length (rf_buckets s)" and P: "placed h (rf_buckets s)"
  shows "\<exists>r s'. Remove_refinable h me s v = Some (r, s') \<and> quiet_refinable s'
           \<and> length (rf_locks s') = length (rf_buckets s')
           \<and> 0 < length (rf_buckets s') \<and> placed h (rf_buckets s')"
proof (cases "v \<in> set (rf_buckets s ! (h v mod length (rf_buckets s)))")
  case False
  from Remove_refinable_absent [where h = h and v = v, OF q len B False] assms
  show ?thesis by auto
next
  case True
  define i where "i = h v mod length (rf_buckets s)"
  define s2 where "s2 = s\<lparr>rf_buckets := (rf_buckets s)[i := remove1 v (rf_buckets s ! i)],
                           rf_size := size_t_dec (rf_size s)\<rparr>"
  have s2: "quiet_refinable s2" "length (rf_locks s2) = length (rf_buckets s2)"
    "0 < length (rf_buckets s2)" "placed h (rf_buckets s2)"
    using q len B P by (simp_all add: s2_def quiet_refinable_def placed_update_remove1)
  note r = Remove_refinable_shrinks [where h = h and v = v and me = me, OF q len B True,
      unfolded Let_def, folded i_def, folded s2_def]
  show ?thesis
  proof (cases "real (rf_size s2) / real (length (rf_buckets s)) < 1")
    case False
    with r have "Remove_refinable h me s v = Some (True, s2)" by simp
    with s2 show ?thesis by auto
  next
    case lf: True
    from Resize_refinable_ok [OF s2(1,2), of h me "max kMinBuckets (length (rf_buckets s) div 2)"]
    obtain s3
      where s3: "Resize_refinable h me s2 (max kMinBuckets (length (rf_buckets s) div 2)) = Some s3"
        "quiet_refinable s3" "length (rf_locks s3) = length (rf_buckets s3)"
        "length (rf_buckets s3)
           = max kMinBuckets (NormalizeCapacity (max kMinBuckets (length (rf_buckets s) div 2)))"
        "placed h (rf_buckets s3)"
      using s2(4) by blast
    from r lf s3(1) have "Remove_refinable h me s v = Some (True, s3)" by simp
    moreover have "0 < length (rf_buckets s3)" using s3(4) by (simp add: kMinBuckets_def)
    ultimately show ?thesis using s3 by auto
  qed
qed

lemma exec_refinable_ok:
  assumes q: "quiet_refinable s" and len: "length (rf_locks s) = length (rf_buckets s)"
    and B: "0 < length (rf_buckets s)" and P: "placed h (rf_buckets s)"
  shows "\<exists>r s'. exec_refinable h me s c = Some (r, s') \<and> quiet_refinable s'
           \<and> length (rf_locks s') = length (rf_buckets s')
           \<and> 0 < length (rf_buckets s') \<and> placed h (rf_buckets s')"
proof (cases c)
  case (AddCall v)
  then show ?thesis using Add_refinable_ok [OF assms, of me v] by auto
next
  case (RemoveCall v)
  then show ?thesis using Remove_refinable_ok [OF assms, of me v] by auto
next
  case (ContainsCall v)
  then show ?thesis using Contains_refinable_ok [OF q len B, of h me v] assms by auto
next
  case SizeCall
  then show ?thesis using assms by (simp add: Size_refinable_def)
qed

lemma run_refinable_ok:
  assumes "quiet_refinable s" and "length (rf_locks s) = length (rf_buckets s)"
    and "0 < length (rf_buckets s)" and "placed h (rf_buckets s)"
  shows "\<exists>s'. run_refinable h me s cs = Some s' \<and> quiet_refinable s'
           \<and> length (rf_locks s') = length (rf_buckets s')
           \<and> 0 < length (rf_buckets s') \<and> placed h (rf_buckets s')"
  using assms
proof (induction cs arbitrary: s)
  case Nil
  then show ?case by simp
next
  case (Cons c cs)
  from exec_refinable_ok [OF Cons.prems, of me c] obtain r s1
    where s1: "exec_refinable h me s c = Some (r, s1)" "quiet_refinable s1"
      "length (rf_locks s1) = length (rf_buckets s1)"
      "0 < length (rf_buckets s1)" "placed h (rf_buckets s1)" by blast
  from Cons.IH [OF s1(2-5)] s1(1) show ?case by auto
qed

lemma HashSetRefinable_init:
  "quiet_refinable (HashSetRefinable c)
   \<and> length (rf_locks (HashSetRefinable c)) = length (rf_buckets (HashSetRefinable c))
   \<and> length (rf_buckets (HashSetRefinable c)) = max c kMinBuckets
   \<and> placed h (rf_buckets (HashSetRefinable c))"
  by (auto simp: HashSetRefinable_def quiet_refinable_def NormalizeCapacity_def Let_def
      placed_replicate)

subsection \<open>The other draft of the refinable set\<close>

lemma WaitIfResizingByOther_sk_quiet:
  "\<not> sk_resizing s \<Longrightarrow> WaitIfResizingByOther_sk s n = Some ()"
  by (subst WaitIfResizingByOther_sk.simps) simp

lemma Index_sk_Some:
  "0 < length (sk_buckets s) \<Longrightarrow> Index_sk h s v = Some (h v mod length (sk_buckets s))"
  by (simp add: Index_sk_def umod_def)

lemma migrate_sk_done:
  "\<not> i < length bs \<Longrightarrow> migrate_sk h nc i bs nb = Some (bs, nb)"
  by (subst migrate_sk.simps) simp

lemma migrate_sk_step:
  "i < length bs \<Longrightarrow> migrate_sk h nc i bs nb =
     (case rehash_bucket h nc (bs ! i) nb of
        None \<Rightarrow> None
      | Some nb1 \<Rightarrow> migrate_sk h nc (i + 1) (bs[i := []]) nb1)"
  by (subst migrate_sk.simps) simp

lemma migrate_sk_length:
  "migrate_sk h nc i bs nb = Some (bs', nb') \<Longrightarrow> length nb' = length nb"
proof (induction h nc i bs nb rule: migrate_sk.induct)
  case (1 h nc i bs nb)
  show ?case
  proof (cases "i < length bs")
    case False
    with "1.prems" show ?thesis by (simp add: migrate_sk_done)
  next
    case True
    with "1.prems" obtain nb1 where st: "rehash_bucket h nc (bs ! i) nb = Some nb1"
      and r: "migrate_sk h nc (i + 1) (bs[i := []]) nb1 = Some (bs', nb')"
      by (auto simp: migrate_sk_step split: option.splits)
    from "1.IH" [OF True st r] rehash_bucket_length [OF st] show ?thesis by simp
  qed
qed

lemma migrate_sk_ok:
  assumes "0 < nc" and "length nb = nc"
  shows "\<exists>bs' nb'. migrate_sk h nc i bs nb = Some (bs', nb')
           \<and> elements nb' = elements nb \<union> elements (drop i bs)
           \<and> (placed h nb \<longrightarrow> placed h nb')"
  using assms
proof (induction h nc i bs nb rule: migrate_sk.induct)
  case (1 h nc i bs nb)
  show ?case
  proof (cases "i < length bs")
    case False
    with "1.prems" show ?thesis by (simp add: migrate_sk_done elements_def)
  next
    case True
    from rehash_bucket_total [OF "1.prems"(1)] obtain nb1
      where nb1: "rehash_bucket h nc (bs ! i) nb = Some nb1" by blast
    have len1: "length nb1 = nc" using rehash_bucket_length [OF nb1] "1.prems"(2) by simp
    from "1.IH" [OF True nb1 "1.prems"(1) len1] obtain bs' nb'
      where r: "migrate_sk h nc (i + 1) (bs[i := []]) nb1 = Some (bs', nb')"
        and e: "elements nb' = elements nb1 \<union> elements (drop (Suc i) bs)"
        and p: "placed h nb1 \<longrightarrow> placed h nb'"
      by auto
    have m: "migrate_sk h nc i bs nb = Some (bs', nb')"
      using True nb1 r by (simp add: migrate_sk_step)
    have "elements nb1 = elements nb \<union> set (bs ! i)"
      using rehash_bucket_elements [OF nb1 "1.prems"(2)] .
    with e have "elements nb' = elements nb \<union> elements (drop i bs)"
      using elements_drop_Suc [of i bs] True by auto
    moreover have "placed h nb \<longrightarrow> placed h nb'"
      using p rehash_bucket_placed [OF nb1 "1.prems"(2)] by blast
    ultimately show ?thesis using m by blast
  qed
qed

lemma Resize_sk_length:
  assumes "Resize_sk h me s n = Some s'" and "length (sk_locks s) = length (sk_buckets s)"
  shows "length (sk_locks s') = length (sk_buckets s')"
  using assms
  by (auto simp: Resize_sk_def Let_def bind_eq_Some_conv
      split: if_splits dest!: migrate_sk_length)

lemma Resize_sk_ok:
  assumes q: "quiet_sk s" and len: "length (sk_locks s) = length (sk_buckets s)"
  shows "\<exists>s'. Resize_sk h me s n = Some s' \<and> quiet_sk s'
           \<and> length (sk_locks s') = length (sk_buckets s')
           \<and> length (sk_buckets s') = max kMinBuckets (NormalizeCapacity n)
           \<and> (placed h (sk_buckets s) \<longrightarrow> placed h (sk_buckets s'))
           \<and> elements (sk_buckets s') = elements (sk_buckets s) \<and> sk_size s' = sk_size s"
proof -
  define nc where "nc = max kMinBuckets (NormalizeCapacity n)"
  have free: "True \<notin> set (sk_locks s)" and rm: "\<not> sk_resize_mutex s" and rz: "\<not> sk_resizing s"
    using q by (simp_all add: quiet_sk_def)
  show ?thesis
  proof (cases "nc = length (sk_buckets s)")
    case True
    have "s\<lparr>sk_resize_mutex := True\<rparr>\<lparr>sk_resize_mutex := False\<rparr> = s"
      using rm by (cases s) simp
    then have "Resize_sk h me s n = Some s"
      using True rm by (simp add: Resize_sk_def nc_def Let_def)
    then show ?thesis using assms True by (simp add: nc_def)
  next
    case False
    have pos: "0 < nc" by (simp add: nc_def kMinBuckets_def)
    from lock_all_free [OF free] obtain held where held: "lock_all (sk_locks s) = Some held"
      by blast
    from migrate_sk_ok [OF pos, of "replicate nc []" h 0 "sk_buckets s"] obtain bs' nb'
      where m: "migrate_sk h nc 0 (sk_buckets s) (replicate nc []) = Some (bs', nb')"
        and e: "elements nb' = elements (sk_buckets s)" and p: "placed h nb'"
      by (auto simp: elements_replicate placed_replicate)
    have l: "length nb' = nc" using migrate_sk_length [OF m] by simp
    define s' where "s' = s\<lparr>sk_resize_mutex := True, sk_owner_tid_hash := me, sk_resizing := True,
        sk_buckets := nb', sk_locks := replicate nc False,
        sk_version := size_t_inc (sk_version s), sk_resizing := False, sk_owner_tid_hash := 0,
        sk_old_lock_arrays := sk_old_lock_arrays s @ [unlock_all held],
        sk_resize_mutex := False\<rparr>"
    have r: "Resize_sk h me s n = Some s'"
      using False rm m held by (simp add: Resize_sk_def nc_def [symmetric] Let_def s'_def)
    show ?thesis using r e p l by (simp add: s'_def quiet_sk_def nc_def)
  qed
qed

lemma Contains_sk_ok:
  assumes q: "quiet_sk s" and len: "length (sk_locks s) = length (sk_buckets s)"
    and B: "0 < length (sk_buckets s)"
  shows "Contains_sk h s v = Some (v \<in> set (sk_buckets s ! (h v mod length (sk_buckets s))), s)"
proof -
  define i where "i = h v mod length (sk_buckets s)"
  have free: "True \<notin> set (sk_locks s)" and rz: "\<not> sk_resizing s"
    using q by (simp_all add: quiet_sk_def)
  have l: "lock_at (sk_locks s) i = Some ((sk_locks s)[i := True])"
    using B len by (intro lock_at_free [OF free]) (simp add: i_def)
  have u: "unlock_at ((sk_locks s)[i := True]) i = sk_locks s"
    using lock_at_Some [OF l] by simp
  show ?thesis
    by (subst Contains_sk.simps)
       (simp add: WaitIfResizingByOther_sk_quiet [OF rz] Index_sk_Some [OF B] i_def [symmetric]
          l u Let_def)
qed

lemma Add_sk_present:
  assumes q: "quiet_sk s" and len: "length (sk_locks s) = length (sk_buckets s)"
    and P: "placed h (sk_buckets s)" and v: "v \<in> elements (sk_buckets s)"
  shows "Add_sk h me s v = Some (False, s)"
proof -
  define i where "i = h v mod length (sk_buckets s)"
  from placed_present [OF P v]
  have B: "0 < length (sk_buckets s)" and m: "v \<in> set (sk_buckets s ! i)" by (simp_all add: i_def)
  have free: "True \<notin> set (sk_locks s)" and rz: "\<not> sk_resizing s"
    using q by (simp_all add: quiet_sk_def)
  have l: "lock_at (sk_locks s) i = Some ((sk_locks s)[i := True])"
    using B len by (intro lock_at_free [OF free]) (simp add: i_def)
  have u: "unlock_at ((sk_locks s)[i := True]) i = sk_locks s"
    using lock_at_Some [OF l] by simp
  show ?thesis
    by (subst Add_sk.simps)
       (simp add: WaitIfResizingByOther_sk_quiet [OF rz] Index_sk_Some [OF B] i_def [symmetric]
          l u m Let_def)
qed

lemma Add_sk_ok:
  assumes q: "quiet_sk s" and len: "length (sk_locks s) = length (sk_buckets s)"
    and B: "0 < length (sk_buckets s)" and P: "placed h (sk_buckets s)"
  shows "\<exists>r s'. Add_sk h me s v = Some (r, s') \<and> quiet_sk s'
           \<and> length (sk_locks s') = length (sk_buckets s')
           \<and> 0 < length (sk_buckets s') \<and> placed h (sk_buckets s')
           \<and> v \<in> elements (sk_buckets s')"
proof -
  define i where "i = h v mod length (sk_buckets s)"
  have free: "True \<notin> set (sk_locks s)" and rz: "\<not> sk_resizing s"
    using q by (simp_all add: quiet_sk_def)
  have l: "lock_at (sk_locks s) i = Some ((sk_locks s)[i := True])"
    using B len by (intro lock_at_free [OF free]) (simp add: i_def)
  have u: "unlock_at ((sk_locks s)[i := True]) i = sk_locks s"
    using lock_at_Some [OF l] by simp
  show ?thesis
  proof (cases "v \<in> set (sk_buckets s ! i)")
    case True
    have "Add_sk h me s v = Some (False, s)"
      by (subst Add_sk.simps)
         (simp add: WaitIfResizingByOther_sk_quiet [OF rz] Index_sk_Some [OF B] i_def [symmetric]
            l u True Let_def)
    moreover have "v \<in> elements (sk_buckets s)"
      using True B by (intro elements_nth [of i]) (simp_all add: i_def)
    ultimately show ?thesis using assms by auto
  next
    case False
    define s2 where "s2 = s\<lparr>sk_buckets := (sk_buckets s)[i := sk_buckets s ! i @ [v]],
                             sk_size := size_t_inc (sk_size s)\<rparr>"
    have s2: "quiet_sk s2" "length (sk_locks s2) = length (sk_buckets s2)"
      "0 < length (sk_buckets s2)" "placed h (sk_buckets s2)" "v \<in> elements (sk_buckets s2)"
      using q len B P
      by (simp_all add: s2_def quiet_sk_def placed_update_append i_def elements_update_append)
    have eq: "s\<lparr>sk_locks := (sk_locks s)[i := True],
                sk_buckets := (sk_buckets s)[i := sk_buckets s ! i @ [v]],
                sk_size := size_t_inc (sk_size s), sk_locks := sk_locks s\<rparr> = s2"
      by (cases s) (simp add: s2_def)
    show ?thesis
    proof (cases "real (size_t_inc (sk_size s)) / real (length (sk_buckets s)) > kMaxLoadFactor")
      case lf: False
      have "Add_sk h me s v = Some (True, s2)"
        using lf
        by (subst Add_sk.simps)
           (simp add: WaitIfResizingByOther_sk_quiet [OF rz] Index_sk_Some [OF B] i_def [symmetric]
              l u rz False Let_def eq)
      then show ?thesis using s2 by auto
    next
      case lf: True
      from Resize_sk_ok [OF s2(1,2), of h me "size_t_dbl (length (sk_buckets s))"] obtain s3
        where s3: "Resize_sk h me s2 (size_t_dbl (length (sk_buckets s))) = Some s3"
          "quiet_sk s3" "length (sk_locks s3) = length (sk_buckets s3)"
          "length (sk_buckets s3) = max kMinBuckets (NormalizeCapacity (size_t_dbl (length (sk_buckets s))))"
          "placed h (sk_buckets s3)" "elements (sk_buckets s3) = elements (sk_buckets s2)"
        using s2(4) by blast
      have "Add_sk h me s v = Some (True, s3)"
        using lf s3(1)
        by (subst Add_sk.simps)
           (simp add: WaitIfResizingByOther_sk_quiet [OF rz] Index_sk_Some [OF B] i_def [symmetric]
              l u rz False Let_def eq)
      moreover have "0 < length (sk_buckets s3)" using s3(4) by (simp add: kMinBuckets_def)
      ultimately show ?thesis using s3 s2(5) by auto
    qed
  qed
qed

lemma Remove_sk_never_resizes:
  assumes q: "quiet_sk s" and len: "length (sk_locks s) = length (sk_buckets s)"
    and B: "0 < length (sk_buckets s)"
  shows "Remove_sk h s v =
           (let i = h v mod length (sk_buckets s) in
            if v \<notin> set (sk_buckets s ! i) then Some (False, s)
            else Some (True, s\<lparr>sk_buckets := (sk_buckets s)[i := remove1 v (sk_buckets s ! i)],
                                sk_size := size_t_dec (sk_size s)\<rparr>))"
proof -
  define i where "i = h v mod length (sk_buckets s)"
  have free: "True \<notin> set (sk_locks s)" and rz: "\<not> sk_resizing s"
    using q by (simp_all add: quiet_sk_def)
  have l: "lock_at (sk_locks s) i = Some ((sk_locks s)[i := True])"
    using B len by (intro lock_at_free [OF free]) (simp add: i_def)
  have u: "unlock_at ((sk_locks s)[i := True]) i = sk_locks s"
    using lock_at_Some [OF l] by simp
  have eq: "s\<lparr>sk_locks := (sk_locks s)[i := True],
              sk_buckets := (sk_buckets s)[i := remove1 v (sk_buckets s ! i)],
              sk_size := size_t_dec (sk_size s), sk_locks := sk_locks s\<rparr>
            = s\<lparr>sk_buckets := (sk_buckets s)[i := remove1 v (sk_buckets s ! i)],
                 sk_size := size_t_dec (sk_size s)\<rparr>"
    by (cases s) simp
  show ?thesis
    by (subst Remove_sk.simps)
       (simp add: WaitIfResizingByOther_sk_quiet [OF rz] Index_sk_Some [OF B] i_def [symmetric]
          l u Let_def eq)
qed

lemma Remove_sk_ok:
  assumes q: "quiet_sk s" and len: "length (sk_locks s) = length (sk_buckets s)"
    and B: "0 < length (sk_buckets s)" and P: "placed h (sk_buckets s)"
  shows "\<exists>r s'. Remove_sk h s v = Some (r, s') \<and> quiet_sk s'
           \<and> length (sk_locks s') = length (sk_buckets s')
           \<and> length (sk_buckets s') = length (sk_buckets s) \<and> placed h (sk_buckets s')"
  using assms
  by (auto simp: Remove_sk_never_resizes [OF q len B] Let_def quiet_sk_def placed_update_remove1)

lemma exec_sk_ok:
  assumes q: "quiet_sk s" and len: "length (sk_locks s) = length (sk_buckets s)"
    and B: "0 < length (sk_buckets s)" and P: "placed h (sk_buckets s)"
  shows "\<exists>r s'. exec_sk h me s c = Some (r, s') \<and> quiet_sk s'
           \<and> length (sk_locks s') = length (sk_buckets s')
           \<and> 0 < length (sk_buckets s') \<and> placed h (sk_buckets s')"
proof (cases c)
  case (AddCall v)
  then show ?thesis using Add_sk_ok [OF assms, of me v] by auto
next
  case (RemoveCall v)
  then show ?thesis using Remove_sk_ok [OF assms, of v] B by auto
next
  case (ContainsCall v)
  then show ?thesis using Contains_sk_ok [OF q len B, of h v] assms by auto
next
  case SizeCall
  then show ?thesis using assms by (simp add: Size_sk_def)
qed

lemma run_sk_ok:
  assumes "quiet_sk s" and "length (sk_locks s) = length (sk_buckets s)"
    and "0 < length (sk_buckets s)" and "placed h (sk_buckets s)"
  shows "\<exists>s'. run_sk h me s cs = Some s' \<and> quiet_sk s'
           \<and> length (sk_locks s') = length (sk_buckets s')
           \<and> 0 < length (sk_buckets s') \<and> placed h (sk_buckets s')"
  using assms
proof (induction cs arbitrary: s)
  case Nil
  then show ?case by simp
next
  case (Cons c cs)
  from exec_sk_ok [OF Cons.prems, of me c] obtain r s1
    where s1: "exec_sk h me s c = Some (r, s1)" "quiet_sk s1"
      "length (sk_locks s1) = length (sk_buckets s1)"
      "0 < length (sk_buckets s1)" "placed h (sk_buckets s1)" by blast
  from Cons.IH [OF s1(2-5)] s1(1) show ?case by auto
qed

lemma HashSetRefinable_sk_init:
  "quiet_sk (HashSetRefinable_sk c)
   \<and> length (sk_locks (HashSetRefinable_sk c)) = length (sk_buckets (HashSetRefinable_sk c))
   \<and> length (sk_buckets (HashSetRefinable_sk c)) = max c kMinBuckets
   \<and> placed h (sk_buckets (HashSetRefinable_sk c))"
  by (auto simp: HashSetRefinable_sk_def quiet_sk_def NormalizeCapacity_def Let_def
      placed_replicate)

subsection \<open>States reached from a constructor\<close>

lemma seq_reached:
  assumes "run_seq h (HashSetSequential c) cs = Some s"
  shows "0 < length (sq_buckets s) \<and> placed h (sq_buckets s)"
proof -
  let ?s0 = "HashSetSequential c :: 'a sequential"
  have B0: "0 < length (sq_buckets ?s0)"
    by (simp add: HashSetSequential_def NormalizeCapacity_def kMinBuckets_def)
  have P0: "placed h (sq_buckets ?s0)" using HashSetSequential_init [of c h] by blast
  from run_seq_inv [OF B0 P0, of cs] obtain s'
    where s': "run_seq h ?s0 cs = Some s'" "length (sq_buckets ?s0) \<le> length (sq_buckets s')"
      "placed h (sq_buckets s')" by blast
  from B0 s'(2) have "0 < length (sq_buckets s')" by linarith
  moreover from s'(1) assms have "s' = s" by simp
  ultimately show ?thesis using s'(3) by simp
qed

lemma coarse_reached:
  assumes "run_coarse h (HashSetCoarseGrained c) cs = Some s"
  shows "\<not> cg_mutex s \<and> placed h (cg_buckets s)"
  using run_coarse_inv [OF assms] HashSetCoarseGrained_init [of c h] by blast

lemma striped_reached:
  assumes "run_striped h (HashSetStriped c S) cs = Some s"
  shows "quiet_striped s \<and> 0 < length (st_locks s) \<and> 0 < length (st_buckets s)
           \<and> placed h (st_buckets s)"
proof -
  let ?s0 = "HashSetStriped c S :: 'a striped"
  have "0 < length (st_locks ?s0)" and "0 < length (st_buckets ?s0)"
    by (simp_all add: HashSetStriped_def NormalizeCapacity_def kMinBuckets_def)
  from run_striped_ok [of ?s0 h cs] this HashSetStriped_init [of c S h] assms
  show ?thesis by auto
qed

lemma refinable_reached:
  assumes "run_refinable h me (HashSetRefinable c) cs = Some s"
  shows "quiet_refinable s \<and> length (rf_locks s) = length (rf_buckets s)
           \<and> 0 < length (rf_buckets s) \<and> placed h (rf_buckets s)"
proof -
  let ?s0 = "HashSetRefinable c :: 'a refinable"
  have "0 < length (rf_buckets ?s0)"
    by (simp add: HashSetRefinable_def NormalizeCapacity_def kMinBuckets_def Let_def)
  from run_refinable_ok [of ?s0 h me cs] this HashSetRefinable_init [of c h] assms
  show ?thesis by auto
qed

lemma sk_reached:
  assumes "run_sk h me (HashSetRefinable_sk c) cs = Some s"
  shows "quiet_sk s \<and> length (sk_locks s) = length (sk_buckets s)
           \<and> 0 < length (sk_buckets s) \<and> placed h (sk_buckets s)"
proof -
  let ?s0 = "HashSetRefinable_sk c :: 'a refinable_sk"
  have "0 < length (sk_buckets ?s0)"
    by (simp add: HashSetRefinable_sk_def NormalizeCapacity_def kMinBuckets_def Let_def)
  from run_sk_ok [of ?s0 h me cs] this HashSetRefinable_sk_init [of c h] assms
  show ?thesis by auto
qed

section \<open>The claims\<close>

text \<open>
  C3 (as the claim states it, refuted).  The claim says that \<open>NormalizeCapacity c\<close> is
  \<open>max c kMinBuckets\<close> for every \<open>c\<close>.  At \<open>c = 1\<close> the helper returns \<open>1\<close>, which is
  neither \<open>max 1 4\<close> nor at least \<open>4\<close>.
\<close>

theorem NormalizeCapacity_not_max:
  "NormalizeCapacity 1 = 1 \<and> NormalizeCapacity 1 \<noteq> max 1 kMinBuckets \<and> \<not> 4 \<le> NormalizeCapacity 1"
  by (simp add: NormalizeCapacity_def kMinBuckets_def)

text \<open>
  C3 (amended).  \<open>NormalizeCapacity\<close> replaces only the capacity \<open>0\<close>, by
  \<open>kMinBuckets = 4\<close>, and returns every other capacity as it is
  (\<open>NormalizeCapacity c = c\<close> for every \<open>c > 0\<close>, also for \<open>1\<close>, \<open>2\<close> and \<open>3\<close>); so it agrees with
  \<open>max c kMinBuckets\<close> exactly when \<open>c = 0\<close> or \<open>4 \<le> c\<close>, and its result is at least \<open>1\<close>.
  The maximum with \<open>kMinBuckets\<close> that every caller takes of its result is
  \<open>max c kMinBuckets\<close>, which is at least \<open>4\<close>.
\<close>

theorem NormalizeCapacity_zero_only:
  "NormalizeCapacity c = (if c = 0 then 4 else c)
   \<and> (0 < c \<longrightarrow> NormalizeCapacity c = c)
   \<and> NormalizeCapacity 0 = 4
   \<and> (NormalizeCapacity c = max c kMinBuckets \<longleftrightarrow> c = 0 \<or> 4 \<le> c)
   \<and> 1 \<le> NormalizeCapacity c
   \<and> max kMinBuckets (NormalizeCapacity c) = max c kMinBuckets
   \<and> 4 \<le> max kMinBuckets (NormalizeCapacity c)"
  by (auto simp: NormalizeCapacity_def kMinBuckets_def)

theorem NormalizeCapacity_zero_only_witness:
  "NormalizeCapacity 0 = 4
   \<and> (0::nat) < 1 \<and> NormalizeCapacity 1 = 1
   \<and> (0::nat) < 2 \<and> NormalizeCapacity 2 = 2
   \<and> (0::nat) < 3 \<and> NormalizeCapacity 3 = 3
   \<and> (0::nat) < 7 \<and> NormalizeCapacity 7 = 7
   \<and> NormalizeCapacity 7 = max 7 kMinBuckets
   \<and> max kMinBuckets (NormalizeCapacity 2) = max 2 kMinBuckets"
  using NormalizeCapacity_zero_only [of 1] NormalizeCapacity_zero_only [of 2]
    NormalizeCapacity_zero_only [of 3] NormalizeCapacity_zero_only [of 7]
  by (simp add: kMinBuckets_def)

text \<open>
  C1 (fails on the code).  The claim says that a \<^verbatim>\<open>Remove\<close> of the coarse-grained set that
  triggers the shrink policy resizes to \<open>B / 2\<close> clamped at \<open>kMinBuckets = 4\<close>, so that
  \<open>4 \<le> B\<close> after every operation.  \<^verbatim>\<open>HashSetCoarseGrained::Remove\<close> calls
  \<^verbatim>\<open>Resize(buckets_.size() / 2)\<close> without a clamp, and its \<^verbatim>\<open>Resize\<close> takes the capacity as
  given: from a set of capacity 4, \<^verbatim>\<open>Add(1); Remove(1)\<close> leaves two buckets.
\<close>

theorem coarse_Remove_shrinks_below_kMinBuckets:
  "Remove_coarse (\<lambda>x::nat. x) \<lparr>cg_mutex = False, cg_buckets = [[], [1], [], []], cg_size = 1\<rparr> 1
     = Some (True, \<lparr>cg_mutex = False, cg_buckets = [[], []], cg_size = 0\<rparr>)
   \<and> run_coarse (\<lambda>x::nat. x) (HashSetCoarseGrained 4) [AddCall 1, RemoveCall 1]
     = Some \<lparr>cg_mutex = False, cg_buckets = [[], []], cg_size = 0\<rparr>
   \<and> length [[], []::nat list] < kMinBuckets"
  by code_simp

text \<open>
  C6.  For the sequential set and every new capacity \<open>new_cap \<ge> 1\<close>, \<^verbatim>\<open>Resize(new_cap)\<close>
  returns, keeps the set of stored elements and the size counter, and leaves exactly
  \<open>new_cap\<close> buckets in which every element \<open>v\<close> is in bucket \<open>h v mod new_cap\<close>
  (invariant I2 at the new capacity).
\<close>

theorem Resize_seq_rehashes:
  assumes "1 \<le> new_cap"
  shows "\<exists>s'. Resize_seq h s new_cap = Some s'
           \<and> elements (sq_buckets s') = elements (sq_buckets s)
           \<and> sq_size s' = sq_size s
           \<and> length (sq_buckets s') = new_cap
           \<and> placed h (sq_buckets s')
           \<and> (\<forall>v \<in> elements (sq_buckets s). v \<in> set (sq_buckets s' ! (h v mod new_cap)))"
proof -
  from assms have "0 < new_cap" by simp
  from Resize_seq_ok [OF this, of h s] obtain s'
    where s': "Resize_seq h s new_cap = Some s'" "elements (sq_buckets s') = elements (sq_buckets s)"
      "sq_size s' = sq_size s" "length (sq_buckets s') = new_cap" "placed h (sq_buckets s')"
    by blast
  have "\<forall>v \<in> elements (sq_buckets s). v \<in> set (sq_buckets s' ! (h v mod new_cap))"
    using placed_present [OF s'(5)] s'(2,4) by auto
  with s' show ?thesis by blast
qed

theorem Resize_seq_rehashes_witness:
  "(1::nat) \<le> 2
   \<and> Resize_seq (\<lambda>x::nat. x) \<lparr>sq_buckets = [[4], [1, 5], [], [3]], sq_size = 4\<rparr> 2
       = Some \<lparr>sq_buckets = [[4], [1, 5, 3]], sq_size = 4\<rparr>
   \<and> (\<exists>s'. Resize_seq (\<lambda>x::nat. x) \<lparr>sq_buckets = [[4], [1, 5], [], [3]], sq_size = 4\<rparr> 2 = Some s'
         \<and> elements (sq_buckets s') = elements [[4], [1, 5], [], [3]]
         \<and> sq_size s' = 4
         \<and> length (sq_buckets s') = 2
         \<and> placed (\<lambda>x. x) (sq_buckets s'))"
proof -
  have "Resize_seq (\<lambda>x::nat. x) \<lparr>sq_buckets = [[4], [1, 5], [], [3]], sq_size = 4\<rparr> 2
       = Some \<lparr>sq_buckets = [[4], [1, 5, 3]], sq_size = 4\<rparr>"
    by code_simp
  moreover have "\<exists>s'. Resize_seq (\<lambda>x::nat. x) \<lparr>sq_buckets = [[4], [1, 5], [], [3]], sq_size = 4\<rparr> 2 = Some s'
         \<and> elements (sq_buckets s') = elements [[4], [1, 5], [], [3]]
         \<and> sq_size s' = 4
         \<and> length (sq_buckets s') = 2
         \<and> placed (\<lambda>x. x) (sq_buckets s')"
    using Resize_seq_rehashes [of 2 "\<lambda>x::nat. x" "\<lparr>sq_buckets = [[4], [1, 5], [], [3]], sq_size = 4\<rparr>"]
    by fastforce
  ultimately show ?thesis by simp
qed

text \<open>
  C10 (fails on the code).  The claim says that every sequence of \<^verbatim>\<open>Add\<close>/\<^verbatim>\<open>Remove\<close> on the
  coarse-grained set keeps the bucket count nonzero, so that \<^verbatim>\<open>hasher_(elem) % buckets_.size()\<close>
  in \<^verbatim>\<open>Index\<close> is always defined.  The unclamped shrink of \<^verbatim>\<open>Remove\<close> halves \<open>4\<close> to \<open>2\<close>,
  \<open>1\<close> and \<open>0\<close>: after three rounds of \<^verbatim>\<open>Add(1); Remove(1)\<close> the bucket array is empty, and
  the next \<^verbatim>\<open>Add\<close> evaluates \<^verbatim>\<open>%\<close> by zero.
\<close>

theorem coarse_bucket_count_reaches_zero:
  "run_coarse (\<lambda>x::nat. x) (HashSetCoarseGrained 4)
      [AddCall 1, RemoveCall 1, AddCall 1, RemoveCall 1, AddCall 1, RemoveCall 1]
     = Some \<lparr>cg_mutex = False, cg_buckets = [], cg_size = 0\<rparr>
   \<and> Index_coarse (\<lambda>x::nat. x) \<lparr>cg_mutex = False, cg_buckets = [], cg_size = 0\<rparr> 1 = None
   \<and> run_coarse (\<lambda>x::nat. x) (HashSetCoarseGrained 4)
      [AddCall 1, RemoveCall 1, AddCall 1, RemoveCall 1, AddCall 1, RemoveCall 1, AddCall 1] = None"
  by code_simp

text \<open>
  C8.  Every constructor builds \<open>max initial_capacity kMinBuckets\<close> buckets: \<open>4\<close> for a
  capacity below \<open>4\<close> (also \<open>0\<close>), the capacity itself from \<open>4\<close> on.  This holds for the
  sequential, coarse-grained and striped sets (with and without a stripe count) and for
  both drafts of the refinable set.
\<close>

theorem constructors_round_capacity_up:
  "length (sq_buckets (HashSetSequential c :: 'a sequential)) = max c kMinBuckets
   \<and> length (cg_buckets (HashSetCoarseGrained c :: 'a coarse)) = max c kMinBuckets
   \<and> length (st_buckets (HashSetStriped c S :: 'a striped)) = max c kMinBuckets
   \<and> length (st_buckets (HashSetStriped_default c :: 'a striped)) = max c kMinBuckets
   \<and> length (rf_buckets (HashSetRefinable c :: 'a refinable)) = max c kMinBuckets
   \<and> length (sk_buckets (HashSetRefinable_sk c :: 'a refinable_sk)) = max c kMinBuckets
   \<and> max c kMinBuckets = (if c < 4 then 4 else c)"
  by (simp add: HashSetSequential_def HashSetCoarseGrained_def HashSetStriped_def
      HashSetStriped_default_def HashSetRefinable_def HashSetRefinable_sk_def
      NormalizeCapacity_def kMinBuckets_def Let_def)

theorem constructors_round_capacity_up_witness:
  "length (sq_buckets (HashSetSequential 0 :: nat sequential)) = 4
   \<and> length (cg_buckets (HashSetCoarseGrained 3 :: nat coarse)) = 4
   \<and> length (st_buckets (HashSetStriped 10 8 :: nat striped)) = 10
   \<and> length (st_buckets (HashSetStriped_default 3 :: nat striped)) = 4
   \<and> length (rf_buckets (HashSetRefinable 0 :: nat refinable)) = 4
   \<and> length (sk_buckets (HashSetRefinable_sk 10 :: nat refinable_sk)) = 10"
  using constructors_round_capacity_up [where ?'a = nat, of 0 8]
    constructors_round_capacity_up [where ?'a = nat, of 3 8]
    constructors_round_capacity_up [where ?'a = nat, of 10 8]
  by (simp add: kMinBuckets_def)

text \<open>
  C5.  The striped set has as many mutexes as the stripe count given to the constructor
  (\<open>64\<close> for the count \<open>0\<close> and for the default).  Every sequence of calls from the
  constructed set returns and leaves the lock array as the constructor made it, and so does
  every \<^verbatim>\<open>Resize\<close> on the state reached; whatever the state, a \<^verbatim>\<open>Resize\<close> that returns has
  replaced at most the bucket array, never the lock array.
\<close>

theorem striped_lock_array_constant:
  "length (st_locks (HashSetStriped c S :: 'a striped)) = (if S = 0 then 64 else S)
   \<and> length (st_locks (HashSetStriped_default c :: 'a striped)) = 64
   \<and> (\<exists>s. run_striped h (HashSetStriped c S :: 'a striped) cs = Some s
          \<and> st_locks s = st_locks (HashSetStriped c S :: 'a striped)
          \<and> (\<forall>n. \<exists>s'. Resize_striped h s n = Some s' \<and> st_locks s' = st_locks s))
   \<and> (\<forall>(s :: 'a striped) n s'. Resize_striped h s n = Some s' \<longrightarrow> st_locks s' = st_locks s)"
proof -
  let ?s0 = "HashSetStriped c S :: 'a striped"
  note init = HashSetStriped_init [of c S h]
  have L: "0 < length (st_locks ?s0)" and B: "0 < length (st_buckets ?s0)"
    by (simp_all add: HashSetStriped_def NormalizeCapacity_def kMinBuckets_def)
  from run_striped_ok [of ?s0 h cs] init L B obtain s
    where s: "run_striped h ?s0 cs = Some s" "quiet_striped s" "st_locks s = st_locks ?s0"
    by blast
  have "\<forall>n. \<exists>s'. Resize_striped h s n = Some s' \<and> st_locks s' = st_locks s"
    using Resize_striped_ok [OF s(2), of h] by blast
  with s have "\<exists>s. run_striped h ?s0 cs = Some s \<and> st_locks s = st_locks ?s0
          \<and> (\<forall>n. \<exists>s'. Resize_striped h s n = Some s' \<and> st_locks s' = st_locks s)"
    by blast
  moreover have "length (st_locks (HashSetStriped_default c :: 'a striped)) = 64"
    by (simp add: HashSetStriped_default_def HashSetStriped_def)
  moreover have "\<forall>(s :: 'a striped) n s'. Resize_striped h s n = Some s' \<longrightarrow> st_locks s' = st_locks s"
    using Resize_striped_locks by blast
  ultimately show ?thesis using init by blast
qed

theorem striped_lock_array_constant_witness:
  "length (st_locks (HashSetStriped 4 8 :: nat striped)) = 8
   \<and> length (st_locks (HashSetStriped 4 0 :: nat striped)) = 64
   \<and> (\<exists>s. run_striped (\<lambda>x. x) (HashSetStriped 4 8) (map AddCall [1..<18]) = Some s
          \<and> length (st_buckets s) = 8 \<and> length (st_locks s) = 8)"
proof -
  have "map_option (\<lambda>s. length (st_buckets s))
          (run_striped (\<lambda>x. x) (HashSetStriped 4 8) (map AddCall [1..<18])) = Some 8"
    by code_simp
  then show ?thesis
    using striped_lock_array_constant [of 4 8 "\<lambda>x::nat. x" "map AddCall [1..<18]"]
      striped_lock_array_constant [of 4 0 "\<lambda>x::nat. x" "[]"]
    by auto
qed

text \<open>
  C4.  In both drafts of the refinable set the lock array has one mutex per bucket: after
  construction with any capacity, after every sequence of calls from the constructed set
  (which always returns), and after every \<^verbatim>\<open>Resize\<close> on the state reached, which leaves
  \<open>max kMinBuckets (NormalizeCapacity n)\<close> buckets and as many mutexes.  Whatever the state,
  a \<^verbatim>\<open>Resize\<close> that returns on a set with one mutex per bucket leaves a set with one mutex
  per bucket.
\<close>

theorem refinable_one_lock_per_bucket:
  "length (rf_locks (HashSetRefinable c :: 'a refinable))
     = length (rf_buckets (HashSetRefinable c :: 'a refinable))
   \<and> (\<exists>s. run_refinable h me (HashSetRefinable c :: 'a refinable) cs = Some s
          \<and> length (rf_locks s) = length (rf_buckets s)
          \<and> (\<forall>n. \<exists>s'. Resize_refinable h me s n = Some s'
                  \<and> length (rf_buckets s') = max kMinBuckets (NormalizeCapacity n)
                  \<and> length (rf_locks s') = length (rf_buckets s')))
   \<and> (\<forall>(s :: 'a refinable) n s'.
          length (rf_locks s) = length (rf_buckets s) \<and> Resize_refinable h me s n = Some s'
          \<longrightarrow> length (rf_locks s') = length (rf_buckets s'))
   \<and> length (sk_locks (HashSetRefinable_sk c :: 'a refinable_sk))
     = length (sk_buckets (HashSetRefinable_sk c :: 'a refinable_sk))
   \<and> (\<exists>s. run_sk h me (HashSetRefinable_sk c :: 'a refinable_sk) cs = Some s
          \<and> length (sk_locks s) = length (sk_buckets s)
          \<and> (\<forall>n. \<exists>s'. Resize_sk h me s n = Some s'
                  \<and> length (sk_buckets s') = max kMinBuckets (NormalizeCapacity n)
                  \<and> length (sk_locks s') = length (sk_buckets s')))
   \<and> (\<forall>(s :: 'a refinable_sk) n s'.
          length (sk_locks s) = length (sk_buckets s) \<and> Resize_sk h me s n = Some s'
          \<longrightarrow> length (sk_locks s') = length (sk_buckets s'))"
proof -
  let ?r0 = "HashSetRefinable c :: 'a refinable"
  let ?k0 = "HashSetRefinable_sk c :: 'a refinable_sk"
  note ri = HashSetRefinable_init [of c h]
  note ki = HashSetRefinable_sk_init [of c h]
  have rB: "0 < length (rf_buckets ?r0)" and kB: "0 < length (sk_buckets ?k0)"
    by (simp_all add: HashSetRefinable_def HashSetRefinable_sk_def NormalizeCapacity_def
        kMinBuckets_def Let_def)
  from run_refinable_ok [of ?r0 h me cs] ri rB obtain s
    where s: "run_refinable h me ?r0 cs = Some s" "quiet_refinable s"
      "length (rf_locks s) = length (rf_buckets s)"
    by blast
  have "\<forall>n. \<exists>s'. Resize_refinable h me s n = Some s'
          \<and> length (rf_buckets s') = max kMinBuckets (NormalizeCapacity n)
          \<and> length (rf_locks s') = length (rf_buckets s')"
    using Resize_refinable_ok [OF s(2,3), of h me] by blast
  with s have r1: "\<exists>s. run_refinable h me ?r0 cs = Some s
          \<and> length (rf_locks s) = length (rf_buckets s)
          \<and> (\<forall>n. \<exists>s'. Resize_refinable h me s n = Some s'
                  \<and> length (rf_buckets s') = max kMinBuckets (NormalizeCapacity n)
                  \<and> length (rf_locks s') = length (rf_buckets s'))"
    by blast
  from run_sk_ok [of ?k0 h me cs] ki kB obtain t
    where t: "run_sk h me ?k0 cs = Some t" "quiet_sk t"
      "length (sk_locks t) = length (sk_buckets t)"
    by blast
  have "\<forall>n. \<exists>s'. Resize_sk h me t n = Some s'
          \<and> length (sk_buckets s') = max kMinBuckets (NormalizeCapacity n)
          \<and> length (sk_locks s') = length (sk_buckets s')"
    using Resize_sk_ok [OF t(2,3), of h me] by blast
  with t have k1: "\<exists>s. run_sk h me ?k0 cs = Some s
          \<and> length (sk_locks s) = length (sk_buckets s)
          \<and> (\<forall>n. \<exists>s'. Resize_sk h me s n = Some s'
                  \<and> length (sk_buckets s') = max kMinBuckets (NormalizeCapacity n)
                  \<and> length (sk_locks s') = length (sk_buckets s'))"
    by blast
  have r2: "\<forall>(s :: 'a refinable) n s'.
          length (rf_locks s) = length (rf_buckets s) \<and> Resize_refinable h me s n = Some s'
          \<longrightarrow> length (rf_locks s') = length (rf_buckets s')"
    using Resize_refinable_length by blast
  have k2: "\<forall>(s :: 'a refinable_sk) n s'.
          length (sk_locks s) = length (sk_buckets s) \<and> Resize_sk h me s n = Some s'
          \<longrightarrow> length (sk_locks s') = length (sk_buckets s')"
    using Resize_sk_length by blast
  from ri ki r1 r2 k1 k2 show ?thesis by blast
qed

theorem refinable_one_lock_per_bucket_witness:
  "(\<exists>s. run_refinable (\<lambda>x. x) 7 (HashSetRefinable 4) (map AddCall [1..<18]) = Some s
        \<and> length (rf_buckets s) = 8 \<and> length (rf_locks s) = 8)
   \<and> (\<exists>s. run_sk (\<lambda>x. x) 7 (HashSetRefinable_sk 4) (map AddCall [1..<18]) = Some s
        \<and> length (sk_buckets s) = 8 \<and> length (sk_locks s) = 8)"
proof -
  have "map_option (\<lambda>s. length (rf_buckets s))
          (run_refinable (\<lambda>x. x) 7 (HashSetRefinable 4) (map AddCall [1..<18])) = Some 8"
    by code_simp
  moreover have "map_option (\<lambda>s. length (sk_buckets s))
          (run_sk (\<lambda>x. x) 7 (HashSetRefinable_sk 4) (map AddCall [1..<18])) = Some 8"
    by code_simp
  ultimately show ?thesis
    using refinable_one_lock_per_bucket [of 4 "\<lambda>x::nat. x" 7 "map AddCall [1..<18]"]
    by auto
qed

text \<open>
  C7.  In every state reached by a sequence of calls from a constructed set, \<^verbatim>\<open>Add(v)\<close> of
  a value \<open>v\<close> that is in some bucket returns \<open>false\<close> and the set after the call is the
  set before it: the same buckets, the same size counter, the same (released) mutexes.
  Hence of two \<^verbatim>\<open>Add(v)\<close> in a row the second returns \<open>false\<close> and changes nothing.  This
  holds for the sequential, coarse-grained and striped sets and for both drafts of the
  refinable set; on the coarse-grained set the first \<^verbatim>\<open>Add\<close> of the pair returns when
  the bucket array is not empty.
\<close>

theorem Add_of_present_value_changes_nothing:
  "(run_seq h (HashSetSequential c) cs = Some sq \<and> v \<in> elements (sq_buckets sq)
      \<longrightarrow> Add_seq h sq v = Some (False, sq))
   \<and> (run_seq h (HashSetSequential c) cs = Some sq
      \<longrightarrow> (\<exists>r t. Add_seq h sq v = Some (r, t) \<and> Add_seq h t v = Some (False, t)))
   \<and> (run_coarse h (HashSetCoarseGrained c) cs = Some cg \<and> v \<in> elements (cg_buckets cg)
      \<longrightarrow> Add_coarse h cg v = Some (False, cg))
   \<and> (run_coarse h (HashSetCoarseGrained c) cs = Some cg \<and> cg_buckets cg \<noteq> []
      \<longrightarrow> (\<exists>r t. Add_coarse h cg v = Some (r, t) \<and> Add_coarse h t v = Some (False, t)))
   \<and> (run_striped h (HashSetStriped c S) cs = Some st \<and> v \<in> elements (st_buckets st)
      \<longrightarrow> Add_striped h st v = Some (False, st))
   \<and> (run_striped h (HashSetStriped c S) cs = Some st
      \<longrightarrow> (\<exists>r t. Add_striped h st v = Some (r, t) \<and> Add_striped h t v = Some (False, t)))
   \<and> (run_refinable h me (HashSetRefinable c) cs = Some rf \<and> v \<in> elements (rf_buckets rf)
      \<longrightarrow> Add_refinable h me rf v = Some (False, rf))
   \<and> (run_refinable h me (HashSetRefinable c) cs = Some rf
      \<longrightarrow> (\<exists>r t. Add_refinable h me rf v = Some (r, t) \<and> Add_refinable h me t v = Some (False, t)))
   \<and> (run_sk h me (HashSetRefinable_sk c) cs = Some sk \<and> v \<in> elements (sk_buckets sk)
      \<longrightarrow> Add_sk h me sk v = Some (False, sk))
   \<and> (run_sk h me (HashSetRefinable_sk c) cs = Some sk
      \<longrightarrow> (\<exists>r t. Add_sk h me sk v = Some (r, t) \<and> Add_sk h me t v = Some (False, t)))"
proof -
  have sq1: "run_seq h (HashSetSequential c) cs = Some sq \<and> v \<in> elements (sq_buckets sq)
      \<longrightarrow> Add_seq h sq v = Some (False, sq)"
    using seq_reached [of h c cs sq] Add_seq_present [of h sq v] by blast
  have sq2: "run_seq h (HashSetSequential c) cs = Some sq
      \<longrightarrow> (\<exists>r t. Add_seq h sq v = Some (r, t) \<and> Add_seq h t v = Some (False, t))"
  proof
    assume "run_seq h (HashSetSequential c) cs = Some sq"
    from seq_reached [OF this] have "0 < length (sq_buckets sq)" "placed h (sq_buckets sq)"
      by simp_all
    from Add_seq_inv [OF this, of v] obtain r t where t: "Add_seq h sq v = Some (r, t)"
      "placed h (sq_buckets t)" "v \<in> elements (sq_buckets t)" by blast
    from t(1) Add_seq_present [OF t(2,3)]
    show "\<exists>r t. Add_seq h sq v = Some (r, t) \<and> Add_seq h t v = Some (False, t)" by blast
  qed
  have cg1: "run_coarse h (HashSetCoarseGrained c) cs = Some cg \<and> v \<in> elements (cg_buckets cg)
      \<longrightarrow> Add_coarse h cg v = Some (False, cg)"
    using coarse_reached [of h c cs cg] Add_coarse_present [of cg h v] by blast
  have cg2: "run_coarse h (HashSetCoarseGrained c) cs = Some cg \<and> cg_buckets cg \<noteq> []
      \<longrightarrow> (\<exists>r t. Add_coarse h cg v = Some (r, t) \<and> Add_coarse h t v = Some (False, t))"
  proof (intro impI, elim conjE)
    assume run: "run_coarse h (HashSetCoarseGrained c) cs = Some cg"
      and ne: "cg_buckets cg \<noteq> []"
    from coarse_reached [OF run] have a: "\<not> cg_mutex cg" "placed h (cg_buckets cg)"
      by simp_all
    from ne have "0 < length (cg_buckets cg)" by simp
    from Add_coarse_total [OF a(1) this, of h v] obtain r t
      where add: "Add_coarse h cg v = Some (r, t)" by blast
    from Add_coarse_inv [OF add a(2)] Add_coarse_member [OF add]
    have "Add_coarse h t v = Some (False, t)" by (intro Add_coarse_present) simp_all
    with add show "\<exists>r t. Add_coarse h cg v = Some (r, t) \<and> Add_coarse h t v = Some (False, t)"
      by blast
  qed
  have st1: "run_striped h (HashSetStriped c S) cs = Some st \<and> v \<in> elements (st_buckets st)
      \<longrightarrow> Add_striped h st v = Some (False, st)"
    using striped_reached [of h c S cs st] Add_striped_present [of st h v] by blast
  have st2: "run_striped h (HashSetStriped c S) cs = Some st
      \<longrightarrow> (\<exists>r t. Add_striped h st v = Some (r, t) \<and> Add_striped h t v = Some (False, t))"
  proof
    assume "run_striped h (HashSetStriped c S) cs = Some st"
    from striped_reached [OF this] have a: "quiet_striped st" "0 < length (st_locks st)"
      "0 < length (st_buckets st)" "placed h (st_buckets st)" by simp_all
    from Add_striped_ok [OF a, of v] obtain r t where t: "Add_striped h st v = Some (r, t)"
      "quiet_striped t" "st_locks t = st_locks st" "placed h (st_buckets t)"
      "v \<in> elements (st_buckets t)" by blast
    from t(3) a(2) have "0 < length (st_locks t)" by simp
    from t(1) Add_striped_present [OF t(2) this t(4,5)]
    show "\<exists>r t. Add_striped h st v = Some (r, t) \<and> Add_striped h t v = Some (False, t)" by blast
  qed
  have rf1: "run_refinable h me (HashSetRefinable c) cs = Some rf \<and> v \<in> elements (rf_buckets rf)
      \<longrightarrow> Add_refinable h me rf v = Some (False, rf)"
    using refinable_reached [of h me c cs rf] Add_refinable_present [of rf h v me] by blast
  have rf2: "run_refinable h me (HashSetRefinable c) cs = Some rf
      \<longrightarrow> (\<exists>r t. Add_refinable h me rf v = Some (r, t) \<and> Add_refinable h me t v = Some (False, t))"
  proof
    assume "run_refinable h me (HashSetRefinable c) cs = Some rf"
    from refinable_reached [OF this] have a: "quiet_refinable rf"
      "length (rf_locks rf) = length (rf_buckets rf)"
      "0 < length (rf_buckets rf)" "placed h (rf_buckets rf)" by simp_all
    from Add_refinable_ok [OF a, of me v] obtain r t where t: "Add_refinable h me rf v = Some (r, t)"
      "quiet_refinable t" "length (rf_locks t) = length (rf_buckets t)" "placed h (rf_buckets t)"
      "v \<in> elements (rf_buckets t)" by blast
    from t(1) Add_refinable_present [OF t(2-5), of me]
    show "\<exists>r t. Add_refinable h me rf v = Some (r, t) \<and> Add_refinable h me t v = Some (False, t)"
      by blast
  qed
  have sk1: "run_sk h me (HashSetRefinable_sk c) cs = Some sk \<and> v \<in> elements (sk_buckets sk)
      \<longrightarrow> Add_sk h me sk v = Some (False, sk)"
    using sk_reached [of h me c cs sk] Add_sk_present [of sk h v me] by blast
  have sk2: "run_sk h me (HashSetRefinable_sk c) cs = Some sk
      \<longrightarrow> (\<exists>r t. Add_sk h me sk v = Some (r, t) \<and> Add_sk h me t v = Some (False, t))"
  proof
    assume "run_sk h me (HashSetRefinable_sk c) cs = Some sk"
    from sk_reached [OF this] have a: "quiet_sk sk"
      "length (sk_locks sk) = length (sk_buckets sk)"
      "0 < length (sk_buckets sk)" "placed h (sk_buckets sk)" by simp_all
    from Add_sk_ok [OF a, of me v] obtain r t where t: "Add_sk h me sk v = Some (r, t)"
      "quiet_sk t" "length (sk_locks t) = length (sk_buckets t)" "placed h (sk_buckets t)"
      "v \<in> elements (sk_buckets t)" by blast
    from t(1) Add_sk_present [OF t(2-5), of me]
    show "\<exists>r t. Add_sk h me sk v = Some (r, t) \<and> Add_sk h me t v = Some (False, t)"
      by blast
  qed
  show ?thesis by (intro conjI; fact)
qed

theorem Add_of_present_value_changes_nothing_witness:
  "run_seq (\<lambda>x. x) (HashSetSequential 4) [AddCall 5]
       = Some \<lparr>sq_buckets = [[], [5::nat], [], []], sq_size = 1\<rparr>
   \<and> (5::nat) \<in> elements (sq_buckets \<lparr>sq_buckets = [[], [5::nat], [], []], sq_size = 1\<rparr>)
   \<and> Add_seq (\<lambda>x. x) \<lparr>sq_buckets = [[], [5::nat], [], []], sq_size = 1\<rparr> 5
       = Some (False, \<lparr>sq_buckets = [[], [5::nat], [], []], sq_size = 1\<rparr>)
   \<and> run_coarse (\<lambda>x. x) (HashSetCoarseGrained 4) [AddCall 5]
       = Some \<lparr>cg_mutex = False, cg_buckets = [[], [5::nat], [], []], cg_size = 1\<rparr>
   \<and> Add_coarse (\<lambda>x. x) \<lparr>cg_mutex = False, cg_buckets = [[], [5::nat], [], []], cg_size = 1\<rparr> 5
       = Some (False, \<lparr>cg_mutex = False, cg_buckets = [[], [5::nat], [], []], cg_size = 1\<rparr>)
   \<and> (\<exists>st. run_striped (\<lambda>x. x) (HashSetStriped 4 8) [AddCall (5::nat)] = Some st
          \<and> Add_striped (\<lambda>x. x) st 5 = Some (False, st))
   \<and> (\<exists>rf. run_refinable (\<lambda>x. x) 7 (HashSetRefinable 4) [AddCall (5::nat)] = Some rf
          \<and> Add_refinable (\<lambda>x. x) 7 rf 5 = Some (False, rf))
   \<and> (\<exists>sk. run_sk (\<lambda>x. x) 7 (HashSetRefinable_sk 4) [AddCall (5::nat)] = Some sk
          \<and> Add_sk (\<lambda>x. x) 7 sk 5 = Some (False, sk))"
proof -
  let ?sq = "\<lparr>sq_buckets = [[], [5::nat], [], []], sq_size = 1\<rparr>"
  let ?cg = "\<lparr>cg_mutex = False, cg_buckets = [[], [5::nat], [], []], cg_size = 1\<rparr>"
  let ?st = "\<lparr>st_buckets = [[], [5::nat], [], []], st_size = 1,
              st_locks = replicate 8 False, st_resize_mutex = False\<rparr>"
  let ?rf = "\<lparr>rf_buckets = [[], [5::nat], [], []], rf_size = 1,
              rf_locks = replicate 4 False, rf_resize_mutex = False, rf_version = 0,
              rf_resizing = False, rf_owner_tid_hash = 0\<rparr>"
  let ?sk = "\<lparr>sk_buckets = [[], [5::nat], [], []], sk_size = 1,
              sk_locks = replicate 4 False, sk_resize_mutex = False, sk_version = 0,
              sk_resizing = False, sk_owner_tid_hash = 0, sk_old_lock_arrays = []\<rparr>"
  have sq: "run_seq (\<lambda>x. x) (HashSetSequential 4) [AddCall 5] = Some ?sq" by code_simp
  have cg: "run_coarse (\<lambda>x. x) (HashSetCoarseGrained 4) [AddCall 5] = Some ?cg" by code_simp
  have st: "run_striped (\<lambda>x. x) (HashSetStriped 4 8) [AddCall 5] = Some ?st" by code_simp
  have rf: "run_refinable (\<lambda>x. x) 7 (HashSetRefinable 4) [AddCall 5] = Some ?rf" by code_simp
  have sk: "run_sk (\<lambda>x. x) 7 (HashSetRefinable_sk 4) [AddCall 5] = Some ?sk" by code_simp
  have e: "(5::nat) \<in> elements (sq_buckets ?sq)" "(5::nat) \<in> elements (cg_buckets ?cg)"
    "(5::nat) \<in> elements (st_buckets ?st)" "(5::nat) \<in> elements (rf_buckets ?rf)"
    "(5::nat) \<in> elements (sk_buckets ?sk)"
    by (simp_all add: elements_def)
  note T = Add_of_present_value_changes_nothing [where h = "\<lambda>x::nat. x" and c = 4
      and cs = "[AddCall 5]" and v = 5 and S = 8 and me = 7
      and sq = ?sq and cg = ?cg and st = ?st and rf = ?rf and sk = ?sk]
  from T sq cg st rf sk e show ?thesis by blast
qed

text \<open>
  C9.  In every state reached by a sequence of calls from a constructed set,
  \<^verbatim>\<open>Contains(v)\<close> and \<^verbatim>\<open>Size()\<close> return and the set after the call is the set before it:
  buckets, mutexes (released again) and size counter are unchanged.  On the coarse-grained
  set \<^verbatim>\<open>Size()\<close> always returns so, and \<^verbatim>\<open>Contains(v)\<close> leaves the set unchanged whenever
  it returns, which it does when the bucket array is not empty.
\<close>

theorem Contains_and_Size_are_read_only:
  "(run_seq h (HashSetSequential c) cs = Some sq
      \<longrightarrow> (\<exists>r. Contains_seq h sq v = Some (r, sq)) \<and> Size_seq sq = Some (sq_size sq, sq))
   \<and> (run_coarse h (HashSetCoarseGrained c) cs = Some cg
      \<longrightarrow> Size_coarse cg = Some (cg_size cg, cg)
          \<and> (\<forall>r t. Contains_coarse h cg v = Some (r, t) \<longrightarrow> t = cg)
          \<and> (cg_buckets cg \<noteq> [] \<longrightarrow> (\<exists>r. Contains_coarse h cg v = Some (r, cg))))
   \<and> (run_striped h (HashSetStriped c S) cs = Some st
      \<longrightarrow> (\<exists>r. Contains_striped h st v = Some (r, st)) \<and> Size_striped st = Some (st_size st, st))
   \<and> (run_refinable h me (HashSetRefinable c) cs = Some rf
      \<longrightarrow> (\<exists>r. Contains_refinable h me rf v = Some (r, rf))
          \<and> Size_refinable rf = Some (rf_size rf, rf))
   \<and> (run_sk h me (HashSetRefinable_sk c) cs = Some sk
      \<longrightarrow> (\<exists>r. Contains_sk h sk v = Some (r, sk)) \<and> Size_sk sk = Some (sk_size sk, sk))"
proof -
  have sq: "run_seq h (HashSetSequential c) cs = Some sq
      \<longrightarrow> (\<exists>r. Contains_seq h sq v = Some (r, sq)) \<and> Size_seq sq = Some (sq_size sq, sq)"
    using seq_reached [of h c cs sq] Contains_seq_frame [of sq h v]
    by (auto simp: Size_seq_def)
  have cg: "run_coarse h (HashSetCoarseGrained c) cs = Some cg
      \<longrightarrow> Size_coarse cg = Some (cg_size cg, cg)
          \<and> (\<forall>r t. Contains_coarse h cg v = Some (r, t) \<longrightarrow> t = cg)
          \<and> (cg_buckets cg \<noteq> [] \<longrightarrow> (\<exists>r. Contains_coarse h cg v = Some (r, cg)))"
    using coarse_reached [of h c cs cg] Size_coarse_frame [of cg] Contains_coarse_unchanged [of h cg v]
      Contains_coarse_frame [of cg h v]
    by auto
  have st: "run_striped h (HashSetStriped c S) cs = Some st
      \<longrightarrow> (\<exists>r. Contains_striped h st v = Some (r, st)) \<and> Size_striped st = Some (st_size st, st)"
    using striped_reached [of h c S cs st] Contains_striped_ok [of st h v]
    by (auto simp: Size_striped_def)
  have rf: "run_refinable h me (HashSetRefinable c) cs = Some rf
      \<longrightarrow> (\<exists>r. Contains_refinable h me rf v = Some (r, rf))
          \<and> Size_refinable rf = Some (rf_size rf, rf)"
    using refinable_reached [of h me c cs rf] Contains_refinable_ok [of rf h me v]
    by (auto simp: Size_refinable_def)
  have sk: "run_sk h me (HashSetRefinable_sk c) cs = Some sk
      \<longrightarrow> (\<exists>r. Contains_sk h sk v = Some (r, sk)) \<and> Size_sk sk = Some (sk_size sk, sk)"
    using sk_reached [of h me c cs sk] Contains_sk_ok [of sk h v]
    by (auto simp: Size_sk_def)
  show ?thesis by (intro conjI; fact)
qed

theorem Contains_and_Size_are_read_only_witness:
  "run_seq (\<lambda>x. x) (HashSetSequential 4) [AddCall 5]
       = Some \<lparr>sq_buckets = [[], [5::nat], [], []], sq_size = 1\<rparr>
   \<and> (\<exists>r. Contains_seq (\<lambda>x. x) \<lparr>sq_buckets = [[], [5::nat], [], []], sq_size = 1\<rparr> 9
           = Some (r, \<lparr>sq_buckets = [[], [5::nat], [], []], sq_size = 1\<rparr>))
   \<and> run_coarse (\<lambda>x. x) (HashSetCoarseGrained 4) [AddCall 5]
       = Some \<lparr>cg_mutex = False, cg_buckets = [[], [5::nat], [], []], cg_size = 1\<rparr>
   \<and> (\<exists>r. Contains_coarse (\<lambda>x. x) \<lparr>cg_mutex = False, cg_buckets = [[], [5::nat], [], []], cg_size = 1\<rparr> 9
           = Some (r, \<lparr>cg_mutex = False, cg_buckets = [[], [5::nat], [], []], cg_size = 1\<rparr>))
   \<and> Size_coarse \<lparr>cg_mutex = False, cg_buckets = [[], [5::nat], [], []], cg_size = 1\<rparr>
       = Some (1, \<lparr>cg_mutex = False, cg_buckets = [[], [5::nat], [], []], cg_size = 1\<rparr>)
   \<and> (\<exists>st r. run_striped (\<lambda>x. x) (HashSetStriped 4 8) [AddCall (5::nat)] = Some st
          \<and> Contains_striped (\<lambda>x. x) st 9 = Some (r, st) \<and> Size_striped st = Some (st_size st, st))
   \<and> (\<exists>rf r. run_refinable (\<lambda>x. x) 7 (HashSetRefinable 4) [AddCall (5::nat)] = Some rf
          \<and> Contains_refinable (\<lambda>x. x) 7 rf 9 = Some (r, rf))
   \<and> (\<exists>sk r. run_sk (\<lambda>x. x) 7 (HashSetRefinable_sk 4) [AddCall (5::nat)] = Some sk
          \<and> Contains_sk (\<lambda>x. x) sk 9 = Some (r, sk))"
proof -
  let ?sq = "\<lparr>sq_buckets = [[], [5::nat], [], []], sq_size = 1\<rparr>"
  let ?cg = "\<lparr>cg_mutex = False, cg_buckets = [[], [5::nat], [], []], cg_size = 1\<rparr>"
  let ?st = "\<lparr>st_buckets = [[], [5::nat], [], []], st_size = 1,
              st_locks = replicate 8 False, st_resize_mutex = False\<rparr>"
  let ?rf = "\<lparr>rf_buckets = [[], [5::nat], [], []], rf_size = 1,
              rf_locks = replicate 4 False, rf_resize_mutex = False, rf_version = 0,
              rf_resizing = False, rf_owner_tid_hash = 0\<rparr>"
  let ?sk = "\<lparr>sk_buckets = [[], [5::nat], [], []], sk_size = 1,
              sk_locks = replicate 4 False, sk_resize_mutex = False, sk_version = 0,
              sk_resizing = False, sk_owner_tid_hash = 0, sk_old_lock_arrays = []\<rparr>"
  have sq: "run_seq (\<lambda>x. x) (HashSetSequential 4) [AddCall 5] = Some ?sq" by code_simp
  have cg: "run_coarse (\<lambda>x. x) (HashSetCoarseGrained 4) [AddCall 5] = Some ?cg" by code_simp
  have st: "run_striped (\<lambda>x. x) (HashSetStriped 4 8) [AddCall 5] = Some ?st" by code_simp
  have rf: "run_refinable (\<lambda>x. x) 7 (HashSetRefinable 4) [AddCall 5] = Some ?rf" by code_simp
  have sk: "run_sk (\<lambda>x. x) 7 (HashSetRefinable_sk 4) [AddCall 5] = Some ?sk" by code_simp
  have ne: "cg_buckets ?cg \<noteq> []" and sz: "cg_size ?cg = 1" by simp_all
  note T = Contains_and_Size_are_read_only [where h = "\<lambda>x::nat. x" and c = 4
      and cs = "[AddCall 5]" and v = 9 and S = 8 and me = 7
      and sq = ?sq and cg = ?cg and st = ?st and rf = ?rf and sk = ?sk]
  from T sq cg st rf sk ne have
    "\<exists>r. Contains_seq (\<lambda>x. x) ?sq 9 = Some (r, ?sq)"
    "\<exists>r. Contains_coarse (\<lambda>x. x) ?cg 9 = Some (r, ?cg)"
    "Size_coarse ?cg = Some (cg_size ?cg, ?cg)"
    "\<exists>r. Contains_striped (\<lambda>x. x) ?st 9 = Some (r, ?st)"
    "Size_striped ?st = Some (st_size ?st, ?st)"
    "\<exists>r. Contains_refinable (\<lambda>x. x) 7 ?rf 9 = Some (r, ?rf)"
    "\<exists>r. Contains_sk (\<lambda>x. x) ?sk 9 = Some (r, ?sk)"
    by blast+
  with sq cg st rf sk sz show ?thesis by (simp only:) blast
qed

text \<open>
  C2 (fails on one draft).  The claim says that a successful \<^verbatim>\<open>Remove\<close> of the refinable
  set calls \<^verbatim>\<open>Resize(max(kMinBuckets, B / 2))\<close> when the load factor is below \<open>1.0\<close> and no
  resize is in progress.  The draft in src/unnamed/part_000 does so
  (\<open>Remove_refinable_shrinks\<close>); \<^verbatim>\<open>Remove\<close> in src/skeleton/src/hash_set_refinable.h never
  calls \<^verbatim>\<open>Resize\<close> (\<open>Remove_sk_never_resizes\<close>), although the class declares
  \<^verbatim>\<open>kMinLoadFactor\<close>.  From a set of capacity 8 holding only \<open>1\<close>, \<^verbatim>\<open>Remove(1)\<close> leaves
  8 buckets and version 0 in the skeleton draft, 4 buckets and version 1 in the other.
\<close>

theorem skeleton_Remove_never_shrinks:
  "run_sk (\<lambda>x::nat. x) 7 (HashSetRefinable_sk 8) [AddCall 1]
     = Some \<lparr>sk_buckets = [[], [1], [], [], [], [], [], []], sk_size = 1,
             sk_locks = [False, False, False, False, False, False, False, False],
             sk_resize_mutex = False, sk_version = 0, sk_resizing = False,
             sk_owner_tid_hash = 0, sk_old_lock_arrays = []\<rparr>
   \<and> Remove_sk (\<lambda>x::nat. x)
        \<lparr>sk_buckets = [[], [1], [], [], [], [], [], []], sk_size = 1,
         sk_locks = [False, False, False, False, False, False, False, False],
         sk_resize_mutex = False, sk_version = 0, sk_resizing = False,
         sk_owner_tid_hash = 0, sk_old_lock_arrays = []\<rparr> 1
     = Some (True,
         \<lparr>sk_buckets = [[], [], [], [], [], [], [], []], sk_size = 0,
          sk_locks = [False, False, False, False, False, False, False, False],
          sk_resize_mutex = False, sk_version = 0, sk_resizing = False,
          sk_owner_tid_hash = 0, sk_old_lock_arrays = []\<rparr>)
   \<and> Remove_refinable (\<lambda>x::nat. x) 7
        \<lparr>rf_buckets = [[], [1], [], [], [], [], [], []], rf_size = 1,
         rf_locks = [False, False, False, False, False, False, False, False],
         rf_resize_mutex = False, rf_version = 0, rf_resizing = False,
         rf_owner_tid_hash = 0\<rparr> 1
     = Some (True,
         \<lparr>rf_buckets = [[], [], [], []], rf_size = 0,
          rf_locks = [False, False, False, False],
          rf_resize_mutex = False, rf_version = 1, rf_resizing = False,
          rf_owner_tid_hash = 0\<rparr>)"
  by code_simp

end
